theory Spec2Isabelle
  imports Complex_Main "HOL-Library.Word" "HOL-Library.Multiset"
begin

section \<open>MemosService: paged fetch of memos and attachment download\<close>

text \<open>
  A shallow embedding of \<^verbatim>\<open>src/services/memos-service.ts\<close>.

  \<^item> JavaScript strings are byte lists holding the UTF-8 form of a well-formed string.
    The patterns the code searches for (\<^verbatim>\<open>/\<close>, \<^verbatim>\<open>/api/v1\<close>) are ASCII, so searching
    the bytes finds the same places as searching the UTF-16 code units.
  \<^item> \<^verbatim>\<open>syncLimit\<close> is a \<^verbatim>\<open>number\<close> that nothing validates. Two models of the fetch follow.
    The integer model (\<open>fetch_loop\<close>, \<open>fetchAllMemos\<close>) takes the limit as an \<open>int\<close> of
    either sign; there the loop always ends, and the model is a total function. The numeric
    model (\<open>fetch_loop_num\<close>, \<open>fetchAllMemos_num\<close>) takes any finite number, as a \<open>rat\<close>;
    there the loop need not end, so the model counts its requests against a fuel and returns
    \<open>None\<close> when the fuel is used up. On integer limits the two agree
    (\<open>fetchAllMemos_num_integer\<close>). Rational arithmetic is the arithmetic of the doubles
    wherever that is exact, as it is for the small multiples of one half used below. NaN and
    the infinities are outside both models.
  \<^item> \<^verbatim>\<open>requestUrl\<close> is a deterministic machine over a hidden state \<open>'s\<close>: it takes a request
    and returns either an exception or a response, and its next state. A fixed sequence of
    responses, finite or not, is the machine whose state is an index into the sequence.
  \<^item> An exception is a value of \<open>js_error\<close>; a function that can throw returns
    \<open>js_error + 'a\<close>.
  \<^item> The logger has no effect on results and is left out.
\<close>

subsection \<open>Data\<close>

text \<open>
  \<^verbatim>\<open>MemoItem\<close>: only \<^verbatim>\<open>createTime\<close> is read; every other field travels in the record's
  extension part and is passed through unchanged.
\<close>

record memo_item =
  createTime :: string

text \<open>
  The value of \<^verbatim>\<open>response.json\<close>, as far as lines 68 to 73 look at it: a falsy value, a
  truthy value whose \<^verbatim>\<open>memos\<close> is not an array, or a \<^verbatim>\<open>MemosResponse\<close> with its
  \<^verbatim>\<open>memos\<close> and its optional \<^verbatim>\<open>nextPageToken\<close>.
\<close>

datatype 'm response_json =
    JsonFalsy
  | JsonNoMemos
  | JsonPage "'m list" "string option"

text \<open>\<^verbatim>\<open>RequestUrlResponse\<close>; the field \<^verbatim>\<open>text\<close> is named \<open>text_body\<close> here.\<close>

record 'm response =
  status :: int
  text_body :: string
  json :: "'m response_json"
  arrayBuffer :: "8 word list option"

text \<open>
  The exceptions of the file. The first four are the \<^verbatim>\<open>new Error(...)\<close> of lines 33, 62, 69
  and 99, told apart by their message; the message of line 62 embeds the status and the
  response text, the one of line 99 the API URL. The last two are what the transport itself
  may throw: a \<^verbatim>\<open>TypeError\<close> with its message, or anything else.
\<close>

datatype js_error =
    ConfigurationError
  | TransportError int string
  | MalformedResponseError
  | NetworkUnavailableError string
  | TypeError string
  | OtherError string

datatype 'm outcome = Threw js_error | Responded "'m response"

text \<open>The argument of \<^verbatim>\<open>requestUrl\<close>; its field \<^verbatim>\<open>method\<close> is named \<open>http_method\<close> here.\<close>

record request =
  url :: string
  headers :: "(string \<times> string) list"
  http_method :: "string option"

type_synonym ('m, 's) transport = "request \<Rightarrow> 's \<Rightarrow> 'm outcome \<times> 's"

text \<open>
  One entry of the trace of a fetch: the request sent, what came back, and the length of
  \<^verbatim>\<open>allMemos\<close> when the request was built. The trace is what a transport mock records; the
  code itself does not keep it.
\<close>

record 'm page_exchange =
  accumulated :: nat
  sent :: request
  received :: "'m outcome"

text \<open>The constructor's fields.\<close>

record 'n memos_service =
  apiUrl :: string
  accessToken :: string
  syncLimit :: 'n

text \<open>The argument of \<^verbatim>\<open>downloadResource\<close>; \<^verbatim>\<open>type\<close> is named \<open>mime_type\<close> here.\<close>

record resource =
  name :: string
  filename :: string
  mime_type :: "string option"

subsection \<open>JavaScript built-ins the code calls\<close>

text \<open>Truthiness of a \<^verbatim>\<open>string | undefined\<close>: undefined and the empty string are falsy.\<close>

definition truthy :: "string option \<Rightarrow> bool" where
  "truthy t = (case t of None \<Rightarrow> False | Some s \<Rightarrow> s \<noteq> [])"

fun starts_with :: "string \<Rightarrow> string \<Rightarrow> bool" where
  "starts_with s p = (take (length p) s = p)"

text \<open>\<^verbatim>\<open>s.includes(p)\<close>.\<close>

fun js_includes :: "string \<Rightarrow> string \<Rightarrow> bool" where
  "js_includes [] p = (p = [])"
| "js_includes (c # cs) p = (starts_with (c # cs) p \<or> js_includes cs p)"

text \<open>
  \<^verbatim>\<open>s.replace(pat, rep)\<close> with a string pattern: the first occurrence only. The code's
  replacement is the empty string, so the \<^verbatim>\<open>$\<close> patterns of a replacement play no role.
\<close>

fun js_replace :: "string \<Rightarrow> string \<Rightarrow> string \<Rightarrow> string" where
  "js_replace pat rep [] = (if pat = [] then rep else [])"
| "js_replace pat rep (c # cs) =
     (if starts_with (c # cs) pat then rep @ drop (length pat) (c # cs)
      else c # js_replace pat rep cs)"

text \<open>\<^verbatim>\<open>s.split(sep)\<close> for a separator of one character.\<close>

fun js_split :: "char \<Rightarrow> string \<Rightarrow> string list" where
  "js_split sep [] = [[]]"
| "js_split sep (c # cs) =
     (if c = sep then [] # js_split sep cs
      else (case js_split sep cs of
              [] \<Rightarrow> [[c]]
            | p # ps \<Rightarrow> (c # p) # ps))"

text \<open>\<^verbatim>\<open>xs.pop()\<close>, as far as its value goes: undefined on an empty array.\<close>

definition js_pop :: "'a list \<Rightarrow> 'a option" where
  "js_pop xs = (if xs = [] then None else Some (last xs))"

text \<open>
  \<^verbatim>\<open>xs.slice(0, e)\<close> for an integer \<open>e\<close>: a negative end counts from the end of the array.
\<close>

definition js_slice0 :: "'a list \<Rightarrow> int \<Rightarrow> 'a list" where
  "js_slice0 xs e =
     (let len = int (length xs);
          final = (if e < 0 then max (len + e) 0 else min e len)
      in take (nat final) xs)"

text \<open>\<^verbatim>\<open>n.toString()\<close> for an integer below \<open>10^21\<close> in absolute value.\<close>

fun nat_toString :: "nat \<Rightarrow> string" where
  "nat_toString n =
     (if n < 10 then [''0123456789'' ! n]
      else nat_toString (n div 10) @ [''0123456789'' ! (n mod 10)])"

declare nat_toString.simps [simp del]

definition int_toString :: "int \<Rightarrow> string" where
  "int_toString i = (if i < 0 then CHR ''-'' # nat_toString (nat (- i)) else nat_toString (nat i))"

definition alphanumeric :: "char \<Rightarrow> bool" where
  "alphanumeric c =
     (c \<in> set ''ABCDEFGHIJKLMNOPQRSTUVWXYZabcdefghijklmnopqrstuvwxyz0123456789'')"

definition percent :: "char \<Rightarrow> string" where
  "percent c =
     [CHR ''%'', ''0123456789ABCDEF'' ! (of_char c div 16),
      ''0123456789ABCDEF'' ! (of_char c mod 16)]"

text \<open>\<^verbatim>\<open>encodeURIComponent\<close>, byte by byte.\<close>

definition encodeURIComponent :: "string \<Rightarrow> string" where
  "encodeURIComponent s =
     concat (map (\<lambda>c. if alphanumeric c \<or> c \<in> set ''-_.!~*'' \<or> c \<in> set [CHR 39, CHR ''('', CHR '')'']
                       then [c] else percent c) s)"

text \<open>
  \<^verbatim>\<open>URLSearchParams.toString()\<close>: the application/x-www-form-urlencoded serialiser.
\<close>

definition form_urlencode :: "string \<Rightarrow> string" where
  "form_urlencode s =
     concat (map (\<lambda>c. if alphanumeric c \<or> c \<in> set ''*-._'' then [c]
                       else if c = CHR '' '' then ''+'' else percent c) s)"

fun params_toString :: "(string \<times> string) list \<Rightarrow> string" where
  "params_toString [] = []"
| "params_toString [(k, v)] = form_urlencode k @ ''='' @ form_urlencode v"
| "params_toString ((k, v) # p # ps) =
     form_urlencode k @ ''='' @ form_urlencode v @ ''&'' @ params_toString (p # ps)"

text \<open>
  \<^verbatim>\<open>xs.sort(cmp)\<close>. The sort is stable; a comparator result of NaN (here \<open>None\<close>) counts
  as \<open>0\<close>. Only the sign of a result is used. Where the comparator is not a consistent
  order the language leaves the result to the implementation; the model then is one
  such implementation, insertion from the right.
\<close>

definition compare_sign :: "int option \<Rightarrow> int" where
  "compare_sign v = (case v of None \<Rightarrow> 0 | Some d \<Rightarrow> d)"

fun sort_insert :: "('a \<Rightarrow> 'a \<Rightarrow> int option) \<Rightarrow> 'a \<Rightarrow> 'a list \<Rightarrow> 'a list" where
  "sort_insert cmp x [] = [x]"
| "sort_insert cmp x (y # ys) =
     (if compare_sign (cmp x y) \<le> 0 then x # y # ys else y # sort_insert cmp x ys)"

definition js_sort :: "('a \<Rightarrow> 'a \<Rightarrow> int option) \<Rightarrow> 'a list \<Rightarrow> 'a list" where
  "js_sort cmp xs = foldr (sort_insert cmp) xs []"

subsection \<open>fetchAllMemos\<close>

text \<open>
  The comparator of lines 93 to 95. \<open>getTime s\<close> stands for
  \<^verbatim>\<open>new Date(s).getTime()\<close>: the time value in milliseconds, or \<open>None\<close> for the NaN of a
  string that does not parse. Time values are integers, and the sign of the floating point
  difference of two of them is the sign of their exact difference.
\<close>

definition byCreateTimeDesc ::
  "(string \<Rightarrow> int option) \<Rightarrow> 'a memo_item_scheme \<Rightarrow> 'a memo_item_scheme \<Rightarrow> int option" where
  "byCreateTimeDesc getTime a b =
     (case (getTime (createTime b), getTime (createTime a)) of
        (Some tb, Some ta) \<Rightarrow> Some (tb - ta)
      | _ \<Rightarrow> None)"

text \<open>Lines 37 to 59: the request of one iteration.\<close>

definition page_request :: "'n memos_service \<Rightarrow> int \<Rightarrow> string option \<Rightarrow> request" where
  "page_request svc pageSize pageToken =
     (let baseUrl = apiUrl svc;
          url = baseUrl @ ''/memos'';
          params = [(''state'', ''NORMAL''), (''pageSize'', int_toString pageSize)]
                   @ (case pageToken of
                        None \<Rightarrow> []
                      | Some t \<Rightarrow> if t \<noteq> [] then [(''pageToken'', t)] else []);
          finalUrl = url @ ''?'' @ params_toString params
      in \<lparr>url = finalUrl,
          headers = [(''Authorization'', ''Bearer '' @ accessToken svc),
                     (''Accept'', ''application/json'')],
          http_method = None\<rparr>)"

text \<open>
  Lines 61 to 88: what one iteration does with the outcome of its request. It throws,
  leaves the loop with the accumulator, or goes round again with the longer accumulator
  and the new page token.
\<close>

datatype 'm iteration = Break "'m list" | Throw js_error | Continue "'m list" "string option"

fun page_step :: "int \<Rightarrow> 'm list \<Rightarrow> 'm outcome \<Rightarrow> 'm iteration" where
  "page_step limit allMemos (Threw e) = Throw e"
| "page_step limit allMemos (Responded r) =
     (if status r \<noteq> 200 then Throw (TransportError (status r) (text_body r))
      else case json r of
        JsonFalsy \<Rightarrow> Throw MalformedResponseError
      | JsonNoMemos \<Rightarrow> Throw MalformedResponseError
      | JsonPage memos nextPageToken \<Rightarrow>
          if length memos = 0 then Break allMemos
          else
            let remainingCount = limit - int (length allMemos);
                neededCount = min (int (length memos)) remainingCount;
                allMemos' = allMemos @ js_slice0 memos neededCount
            in if int (length allMemos') \<ge> limit \<or> \<not> truthy nextPageToken
               then Break allMemos'
               else Continue allMemos' nextPageToken)"

text \<open>
  Lines 36 to 90: the \<^verbatim>\<open>do ... while (true)\<close> loop, with the trace of its requests.
  \<open>pageSize\<close> is the constant of line 29.
\<close>

function fetch_loop ::
  "('m, 's) transport \<Rightarrow> int memos_service \<Rightarrow> int \<Rightarrow> 'm list \<Rightarrow> string option \<Rightarrow> 's
   \<Rightarrow> (js_error + 'm list) \<times> 'm page_exchange list \<times> 's" where
  "fetch_loop requestUrl svc pageSize allMemos pageToken w =
     (let req = page_request svc pageSize pageToken;
          (out, w') = requestUrl req w;
          ex = \<lparr>accumulated = length allMemos, sent = req, received = out\<rparr>
      in case page_step (syncLimit svc) allMemos out of
           Throw e \<Rightarrow> (Inl e, [ex], w')
         | Break res \<Rightarrow> (Inr res, [ex], w')
         | Continue allMemos' pageToken' \<Rightarrow>
             (case fetch_loop requestUrl svc pageSize allMemos' pageToken' w' of
                (r, exs, w'') \<Rightarrow> (r, ex # exs, w'')))"
  by pat_completeness auto
termination
proof (relation "measure (\<lambda>(tr, svc, ps, a, t, w). nat (syncLimit svc - int (length a)))")
  show "wf (measure (\<lambda>(tr, svc, ps, a, t, w). nat (syncLimit svc - int (length a))))"
    by simp
next
  fix requestUrl :: "('m, 's) transport" and svc :: "int memos_service" and pageSize :: int
    and allMemos :: "'m list" and pageToken :: "string option" and w :: 's
    and req :: request and res :: "'m outcome \<times> 's" and out :: "'m outcome" and w' :: 's
    and ex :: "'m page_exchange" and allMemos' :: "'m list" and pageToken' :: "string option"
  assume step: "page_step (syncLimit svc) allMemos out = Continue allMemos' pageToken'"
  let ?limit = "syncLimit svc"
  from step obtain memos where
    ms: "memos \<noteq> []" and
    a': "allMemos' = allMemos @ js_slice0 memos (min (int (length memos)) (?limit - int (length allMemos)))" and
    lt: "int (length allMemos') < ?limit"
    by (cases out) (auto simp: Let_def split: if_splits response_json.splits)
  from a' lt have "int (length allMemos) < ?limit" by simp
  with ms have "0 < length (js_slice0 memos (min (int (length memos)) (?limit - int (length allMemos))))"
    by (cases memos) (auto simp: js_slice0_def Let_def)
  with a' lt have "int (length allMemos) < int (length allMemos') \<and> int (length allMemos') < ?limit"
    by simp
  then show "((requestUrl, svc, pageSize, allMemos', pageToken', w'),
              requestUrl, svc, pageSize, allMemos, pageToken, w)
        \<in> measure (\<lambda>(tr, svc, ps, a, t, w). nat (syncLimit svc - int (length a)))"
    by simp
qed

declare fetch_loop.simps [simp del]

text \<open>Lines 23 to 95: the body of the \<^verbatim>\<open>try\<close>.\<close>

definition fetchAllMemos_try ::
  "(string \<Rightarrow> int option) \<Rightarrow> ('a memo_item_scheme, 's) transport \<Rightarrow> int memos_service \<Rightarrow> 's
   \<Rightarrow> (js_error + 'a memo_item_scheme list) \<times> 'a memo_item_scheme page_exchange list \<times> 's" where
  "fetchAllMemos_try getTime requestUrl svc w =
     (let pageSize = min 100 (syncLimit svc)
      in if \<not> js_includes (apiUrl svc) ''/api/v1'' then (Inl ConfigurationError, [], w)
         else case fetch_loop requestUrl svc pageSize [] None w of
                (Inl e, exs, w') \<Rightarrow> (Inl e, exs, w')
              | (Inr allMemos, exs, w') \<Rightarrow>
                  (Inr (js_sort (byCreateTimeDesc getTime) allMemos), exs, w'))"

text \<open>
  Lines 96 to 102: the \<^verbatim>\<open>catch\<close>. A \<^verbatim>\<open>TypeError\<close> whose message is
  \<^verbatim>\<open>Failed to fetch\<close> is replaced by the error naming the API URL; any other error is
  thrown again as it is.
\<close>

definition fetchAllMemos ::
  "(string \<Rightarrow> int option) \<Rightarrow> ('a memo_item_scheme, 's) transport \<Rightarrow> int memos_service \<Rightarrow> 's
   \<Rightarrow> (js_error + 'a memo_item_scheme list) \<times> 'a memo_item_scheme page_exchange list \<times> 's" where
  "fetchAllMemos getTime requestUrl svc w =
     (case fetchAllMemos_try getTime requestUrl svc w of
        (Inl error, exs, w') \<Rightarrow>
          (if error = TypeError ''Failed to fetch''
           then (Inl (NetworkUnavailableError (apiUrl svc)), exs, w')
           else (Inl error, exs, w'))
      | (Inr sorted_memos, exs, w') \<Rightarrow> (Inr sorted_memos, exs, w'))"

subsection \<open>downloadResource\<close>

text \<open>Line 109: the last segment of the name, or the whole name when that segment is empty.\<close>

definition attachmentId :: "resource \<Rightarrow> string" where
  "attachmentId res =
     (case js_pop (js_split CHR ''/'' (name res)) of
        None \<Rightarrow> name res
      | Some seg \<Rightarrow> if seg \<noteq> [] then seg else name res)"

text \<open>Line 110.\<close>

definition resourceUrl :: "'n memos_service \<Rightarrow> resource \<Rightarrow> string" where
  "resourceUrl svc res =
     js_replace ''/api/v1'' [] (apiUrl svc) @ ''/file/attachments/'' @ attachmentId res
       @ ''/'' @ encodeURIComponent (filename res)"

text \<open>Lines 114 to 121: the request.\<close>

definition download_request :: "'n memos_service \<Rightarrow> resource \<Rightarrow> request" where
  "download_request svc res =
     \<lparr>url = resourceUrl svc res,
      headers = [(''Authorization'', ''Bearer '' @ accessToken svc), (''Accept'', ''*/*'')],
      http_method = Some ''GET''\<rparr>"

text \<open>Lines 107 to 137: the body of the \<^verbatim>\<open>try\<close>, with the requests it sends.\<close>

definition downloadResource_try ::
  "('m, 's) transport \<Rightarrow> 'n memos_service \<Rightarrow> resource
   \<Rightarrow> 's \<Rightarrow> (js_error + 8 word list option) \<times> request list \<times> 's" where
  "downloadResource_try requestUrl svc res w =
     (let req = download_request svc res;
          (out, w') = requestUrl req w
      in case out of
           Threw e \<Rightarrow> (Inl e, [req], w')
         | Responded r \<Rightarrow>
             if status r \<noteq> 200 then (Inr None, [req], w')
             else (case arrayBuffer r of
                     Some buf \<Rightarrow> (Inr (Some buf), [req], w')
                   | None \<Rightarrow> (Inr None, [req], w')))"

text \<open>Lines 138 to 141: the \<^verbatim>\<open>catch\<close> turns every exception into \<^verbatim>\<open>null\<close>.\<close>

definition downloadResource ::
  "('m, 's) transport \<Rightarrow> 'n memos_service \<Rightarrow> resource
   \<Rightarrow> 's \<Rightarrow> (js_error + 8 word list option) \<times> request list \<times> 's" where
  "downloadResource requestUrl svc res w =
     (case downloadResource_try requestUrl svc res w of
        (Inl error, reqs, w') \<Rightarrow> (Inr None, reqs, w')
      | (Inr v, reqs, w') \<Rightarrow> (Inr v, reqs, w'))"

subsection \<open>fetchAllMemos for a limit that is any finite number\<close>

text \<open>
  \<^verbatim>\<open>slice\<close> takes its end through ToIntegerOrInfinity, which drops the fraction.
\<close>

definition to_integer :: "rat \<Rightarrow> int" where
  "to_integer q = (if q < 0 then \<lceil>q\<rceil> else \<lfloor>q\<rfloor>)"

text \<open>
  \<^verbatim>\<open>n.toString()\<close>: for an integer as in the integer model; the text of a number with a
  fraction is left to a parameter.
\<close>

definition number_toString :: "(rat \<Rightarrow> string) \<Rightarrow> rat \<Rightarrow> string" where
  "number_toString fraction_toString q =
     (if q = of_int \<lfloor>q\<rfloor> then int_toString \<lfloor>q\<rfloor> else fraction_toString q)"

text \<open>Lines 37 to 59 again, with the page size a number.\<close>

definition page_request_num ::
  "(rat \<Rightarrow> string) \<Rightarrow> rat memos_service \<Rightarrow> rat \<Rightarrow> string option \<Rightarrow> request" where
  "page_request_num fraction_toString svc pageSize pageToken =
     (let baseUrl = apiUrl svc;
          url = baseUrl @ ''/memos'';
          params = [(''state'', ''NORMAL''), (''pageSize'', number_toString fraction_toString pageSize)]
                   @ (case pageToken of
                        None \<Rightarrow> []
                      | Some t \<Rightarrow> if t \<noteq> [] then [(''pageToken'', t)] else []);
          finalUrl = url @ ''?'' @ params_toString params
      in \<lparr>url = finalUrl,
          headers = [(''Authorization'', ''Bearer '' @ accessToken svc),
                     (''Accept'', ''application/json'')],
          http_method = None\<rparr>)"

text \<open>
  Lines 61 to 88 again, with the limit a number: the subtraction of line 80, the minimum
  of line 81 and the comparison of line 86 are those of numbers.
\<close>

fun page_step_num :: "rat \<Rightarrow> 'm list \<Rightarrow> 'm outcome \<Rightarrow> 'm iteration" where
  "page_step_num limit allMemos (Threw e) = Throw e"
| "page_step_num limit allMemos (Responded r) =
     (if status r \<noteq> 200 then Throw (TransportError (status r) (text_body r))
      else case json r of
        JsonFalsy \<Rightarrow> Throw MalformedResponseError
      | JsonNoMemos \<Rightarrow> Throw MalformedResponseError
      | JsonPage memos nextPageToken \<Rightarrow>
          if length memos = 0 then Break allMemos
          else
            let remainingCount = limit - of_nat (length allMemos);
                neededCount = min (of_nat (length memos)) remainingCount;
                allMemos' = allMemos @ js_slice0 memos (to_integer neededCount)
            in if of_nat (length allMemos') \<ge> limit \<or> \<not> truthy nextPageToken
               then Break allMemos'
               else Continue allMemos' nextPageToken)"

text \<open>
  Lines 36 to 90 again. Each iteration takes one unit of fuel; with no fuel left the
  result is \<open>None\<close>: the loop is still running. The trace holds the requests sent so far.
\<close>

fun fetch_loop_num ::
  "nat \<Rightarrow> (rat \<Rightarrow> string) \<Rightarrow> ('m, 's) transport \<Rightarrow> rat memos_service \<Rightarrow> rat \<Rightarrow> 'm list
   \<Rightarrow> string option \<Rightarrow> 's \<Rightarrow> (js_error + 'm list) option \<times> 'm page_exchange list \<times> 's" where
  "fetch_loop_num 0 fraction_toString requestUrl svc pageSize allMemos pageToken w = (None, [], w)"
| "fetch_loop_num (Suc fuel) fraction_toString requestUrl svc pageSize allMemos pageToken w =
     (let req = page_request_num fraction_toString svc pageSize pageToken;
          (out, w') = requestUrl req w;
          ex = \<lparr>accumulated = length allMemos, sent = req, received = out\<rparr>
      in case page_step_num (syncLimit svc) allMemos out of
           Throw e \<Rightarrow> (Some (Inl e), [ex], w')
         | Break res \<Rightarrow> (Some (Inr res), [ex], w')
         | Continue allMemos' pageToken' \<Rightarrow>
             (case fetch_loop_num fuel fraction_toString requestUrl svc pageSize allMemos' pageToken' w' of
                (r, exs, w'') \<Rightarrow> (r, ex # exs, w'')))"

text \<open>Lines 23 to 95 and lines 96 to 102 again.\<close>

definition fetchAllMemos_num_try ::
  "nat \<Rightarrow> (string \<Rightarrow> int option) \<Rightarrow> (rat \<Rightarrow> string) \<Rightarrow> ('a memo_item_scheme, 's) transport
   \<Rightarrow> rat memos_service \<Rightarrow> 's
   \<Rightarrow> (js_error + 'a memo_item_scheme list) option \<times> 'a memo_item_scheme page_exchange list \<times> 's" where
  "fetchAllMemos_num_try fuel getTime fraction_toString requestUrl svc w =
     (let pageSize = min 100 (syncLimit svc)
      in if \<not> js_includes (apiUrl svc) ''/api/v1'' then (Some (Inl ConfigurationError), [], w)
         else case fetch_loop_num fuel fraction_toString requestUrl svc pageSize [] None w of
                (None, exs, w') \<Rightarrow> (None, exs, w')
              | (Some (Inl e), exs, w') \<Rightarrow> (Some (Inl e), exs, w')
              | (Some (Inr allMemos), exs, w') \<Rightarrow>
                  (Some (Inr (js_sort (byCreateTimeDesc getTime) allMemos)), exs, w'))"

definition fetchAllMemos_num ::
  "nat \<Rightarrow> (string \<Rightarrow> int option) \<Rightarrow> (rat \<Rightarrow> string) \<Rightarrow> ('a memo_item_scheme, 's) transport
   \<Rightarrow> rat memos_service \<Rightarrow> 's
   \<Rightarrow> (js_error + 'a memo_item_scheme list) option \<times> 'a memo_item_scheme page_exchange list \<times> 's" where
  "fetchAllMemos_num fuel getTime fraction_toString requestUrl svc w =
     (case fetchAllMemos_num_try fuel getTime fraction_toString requestUrl svc w of
        (None, exs, w') \<Rightarrow> (None, exs, w')
      | (Some (Inl error), exs, w') \<Rightarrow>
          (if error = TypeError ''Failed to fetch''
           then (Some (Inl (NetworkUnavailableError (apiUrl svc))), exs, w')
           else (Some (Inl error), exs, w'))
      | (Some (Inr sorted_memos), exs, w') \<Rightarrow> (Some (Inr sorted_memos), exs, w'))"

text \<open>A service with an integer limit, seen as one with a number.\<close>

definition as_number :: "int memos_service \<Rightarrow> rat memos_service" where
  "as_number svc =
     \<lparr>apiUrl = apiUrl svc, accessToken = accessToken svc, syncLimit = of_int (syncLimit svc)\<rparr>"

subsection \<open>Observing a run\<close>

text \<open>
  The result and the trace of a call of \<^verbatim>\<open>fetchAllMemos\<close>.
\<close>

definition fetch_result ::
  "(string \<Rightarrow> int option) \<Rightarrow> ('a memo_item_scheme, 's) transport \<Rightarrow> int memos_service \<Rightarrow> 's
   \<Rightarrow> js_error + 'a memo_item_scheme list" where
  "fetch_result getTime requestUrl svc w = fst (fetchAllMemos getTime requestUrl svc w)"

definition fetch_trace ::
  "(string \<Rightarrow> int option) \<Rightarrow> ('a memo_item_scheme, 's) transport \<Rightarrow> int memos_service \<Rightarrow> 's
   \<Rightarrow> 'a memo_item_scheme page_exchange list" where
  "fetch_trace getTime requestUrl svc w = fst (snd (fetchAllMemos getTime requestUrl svc w))"

text \<open>
  A successfully parsed page: the status is 200 and the body passes the check of line 68.
  \<open>page_of\<close> gives its \<^verbatim>\<open>memos\<close> and its \<^verbatim>\<open>nextPageToken\<close>.
\<close>

fun page_of :: "'m outcome \<Rightarrow> ('m list \<times> string option) option" where
  "page_of (Threw e) = None"
| "page_of (Responded r) =
     (if status r \<noteq> 200 then None
      else case json r of
        JsonFalsy \<Rightarrow> None
      | JsonNoMemos \<Rightarrow> None
      | JsonPage memos nextPageToken \<Rightarrow> Some (memos, nextPageToken))"

definition page_memos :: "'m outcome \<Rightarrow> 'm list" where
  "page_memos out = (case page_of out of None \<Rightarrow> [] | Some (memos, nextPageToken) \<Rightarrow> memos)"

text \<open>
  What lines 80 to 82 push when the accumulator holds \<open>n\<close> items and the request comes
  back with \<open>out\<close>, and whether line 86 then lets the loop go round again.
\<close>

definition appended :: "int \<Rightarrow> nat \<Rightarrow> 'm outcome \<Rightarrow> 'm list" where
  "appended limit n out =
     (case page_of out of
        None \<Rightarrow> []
      | Some (memos, nextPageToken) \<Rightarrow>
          js_slice0 memos (min (int (length memos)) (limit - int n)))"

definition continues :: "int \<Rightarrow> nat \<Rightarrow> 'm outcome \<Rightarrow> bool" where
  "continues limit n out =
     (case page_of out of
        None \<Rightarrow> False
      | Some (memos, nextPageToken) \<Rightarrow>
          memos \<noteq> [] \<and> truthy nextPageToken
          \<and> int (n + length (appended limit n out)) < limit)"

text \<open>The items of a trace in the order they were fetched, each page cut as line 82 cuts it.\<close>

definition fetched :: "int \<Rightarrow> 'm page_exchange list \<Rightarrow> 'm list" where
  "fetched limit exs = concat (map (\<lambda>ex. appended limit (accumulated ex) (received ex)) exs)"

text \<open>What the \<^verbatim>\<open>catch\<close> of lines 96 to 102 throws for a caught error.\<close>

definition rethrown :: "'n memos_service \<Rightarrow> js_error \<Rightarrow> js_error" where
  "rethrown svc e = (if e = TypeError ''Failed to fetch'' then NetworkUnavailableError (apiUrl svc) else e)"

text \<open>
  The specification's wording for the attachment id, the final \<^verbatim>\<open>/\<close>-delimited segment
  of a name: what follows the last \<^verbatim>\<open>/\<close>, or the whole name when it has none.
\<close>

definition final_segment :: "string \<Rightarrow> string" where
  "final_segment s = rev (takeWhile (\<lambda>c. c \<noteq> CHR ''/'') (rev s))"

subsection \<open>Concrete inputs\<close>

text \<open>
  A transport that answers the \<open>i\<close>-th request with the \<open>i\<close>-th outcome of a list and
  throws once the list is used up.
\<close>

definition replay :: "'m outcome list \<Rightarrow> ('m, nat) transport" where
  "replay outs req i =
     (if i < length outs then outs ! i else Threw (OtherError ''no more responses''), Suc i)"

definition page :: "'m list \<Rightarrow> string option \<Rightarrow> 'm outcome" where
  "page memos nextPageToken =
     Responded \<lparr>status = 200, text_body = [], json = JsonPage memos nextPageToken,
                arrayBuffer = None\<rparr>"

definition failure :: "int \<Rightarrow> string \<Rightarrow> 'm outcome" where
  "failure code body =
     Responded \<lparr>status = code, text_body = body, json = JsonFalsy, arrayBuffer = None\<rparr>"

text \<open>A memo with a second field.\<close>

definition memo :: "string \<Rightarrow> string \<Rightarrow> string memo_item_scheme" where
  "memo t c = \<lparr>createTime = t, \<dots> = c\<rparr>"

text \<open>The time values of three dates.\<close>

definition demo_getTime :: "string \<Rightarrow> int option" where
  "demo_getTime s =
     (if s = ''2024-01-01T00:00:00Z'' then Some 1704067200000
      else if s = ''2024-01-02T00:00:00Z'' then Some 1704153600000
      else if s = ''2024-01-03T00:00:00Z'' then Some 1704240000000
      else None)"

definition demo_service :: "int memos_service" where
  "demo_service =
     \<lparr>apiUrl = ''https://memos.example/api/v1'', accessToken = ''secret'', syncLimit = 3\<rparr>"

text \<open>
  Two pages of two memos each, both with a continuation token: under a limit of three the
  second page is cut to one memo.
\<close>

definition demo_pages :: "string memo_item_scheme outcome list" where
  "demo_pages =
     [page [memo ''2024-01-01T00:00:00Z'' ''a'', memo ''2024-01-03T00:00:00Z'' ''b''] (Some ''next''),
      page [memo ''2024-01-01T00:00:00Z'' ''c'', memo ''2024-01-02T00:00:00Z'' ''d''] (Some ''more'')]"

text \<open>An empty second page that still carries a token, and a third page behind it.\<close>

definition demo_empty :: "string memo_item_scheme outcome list" where
  "demo_empty =
     [page [memo ''2024-01-01T00:00:00Z'' ''a''] (Some ''next''),
      page [] (Some ''more''),
      page [memo ''2024-01-02T00:00:00Z'' ''z''] None]"

text \<open>A first page of one memo without a token, and a second page behind it.\<close>

definition demo_short :: "string memo_item_scheme outcome list" where
  "demo_short =
     [page [memo ''2024-01-01T00:00:00Z'' ''a''] None,
      page [memo ''2024-01-02T00:00:00Z'' ''z''] None]"

text \<open>A second request answered with status 500, and a good page behind it.\<close>

definition demo_fail :: "string memo_item_scheme outcome list" where
  "demo_fail =
     [page [memo ''2024-01-01T00:00:00Z'' ''a''] (Some ''next''),
      failure 500 ''boom'',
      page [memo ''2024-01-02T00:00:00Z'' ''z''] None]"

text \<open>Outcomes of a download: a buffer, a 404, a 200 without a buffer, an exception.\<close>

definition demo_file :: "unit outcome" where
  "demo_file = Responded \<lparr>status = 200, text_body = [], json = JsonFalsy, arrayBuffer = Some [137, 80, 78, 71]\<rparr>"

definition demo_missing :: "unit outcome" where
  "demo_missing = Responded \<lparr>status = 404, text_body = ''not found'', json = JsonFalsy, arrayBuffer = Some []\<rparr>"

definition demo_no_buffer :: "unit outcome" where
  "demo_no_buffer = Responded \<lparr>status = 200, text_body = ''ok'', json = JsonFalsy, arrayBuffer = None\<rparr>"

definition demo_unreachable :: "unit outcome" where
  "demo_unreachable = Threw (TypeError ''Failed to fetch'')"

definition demo_resource :: resource where
  "demo_resource = \<lparr>name = ''attachments/sub/77'', filename = ''photo 1.png'', mime_type = None\<rparr>"

definition demo_trailing :: resource where
  "demo_trailing = \<lparr>name = ''attachments/'', filename = ''photo.png'', mime_type = None\<rparr>"

text \<open>A server that answers every request with the same outcome.\<close>

definition endless :: "'m outcome \<Rightarrow> ('m, nat) transport" where
  "endless out req i = (out, Suc i)"

text \<open>One memo and a continuation token.\<close>

definition demo_one_more :: "string memo_item_scheme outcome" where
  "demo_one_more = page [memo ''2024-01-01T00:00:00Z'' ''a''] (Some ''next'')"

text \<open>A limit of two and a half, and the text of the two fractions that occur with it.\<close>

definition demo_fractional :: "rat memos_service" where
  "demo_fractional =
     \<lparr>apiUrl = ''https://memos.example/api/v1'', accessToken = ''secret'', syncLimit = 5 / 2\<rparr>"

definition demo_fraction_toString :: "rat \<Rightarrow> string" where
  "demo_fraction_toString q = (if q = 5 / 2 then ''2.5'' else ''0.5'')"

section \<open>Properties\<close>

subsection \<open>The loop and its trace\<close>

lemma js_slice0_Nil [simp]: "js_slice0 [] e = []"
  by (simp add: js_slice0_def)

lemma fetch_loop_unfold:
  assumes "requestUrl (page_request svc ps t) w = (out, w1)"
  shows "fetch_loop requestUrl svc ps a t w =
     (case page_step (syncLimit svc) a out of
        Throw e \<Rightarrow> (Inl e, [\<lparr>accumulated = length a, sent = page_request svc ps t, received = out\<rparr>], w1)
      | Break res \<Rightarrow> (Inr res, [\<lparr>accumulated = length a, sent = page_request svc ps t, received = out\<rparr>], w1)
      | Continue a' t' \<Rightarrow>
          (case fetch_loop requestUrl svc ps a' t' w1 of
             (r, exs, w2) \<Rightarrow> (r, \<lparr>accumulated = length a, sent = page_request svc ps t, received = out\<rparr> # exs, w2)))"
  using assms by (subst fetch_loop.simps) (simp add: Let_def)

lemma page_step_Continue_iff:
  "page_step limit a out = Continue a' t' \<longleftrightarrow>
     continues limit (length a) out \<and> a' = a @ appended limit (length a) out
     \<and> (\<exists>ms. page_of out = Some (ms, t'))"
  by (cases out) (auto simp: continues_def appended_def Let_def split: response_json.splits)

lemma page_step_Break:
  "page_step limit a out = Break res \<Longrightarrow>
     \<not> continues limit (length a) out \<and> res = a @ appended limit (length a) out
     \<and> page_of out \<noteq> None"
  by (cases out) (auto simp: continues_def appended_def Let_def split: response_json.splits if_splits)

lemma page_step_Throw:
  "page_step limit a out = Throw e \<longleftrightarrow>
     (out = Threw e \<or> (\<exists>r. out = Responded r \<and> (if status r \<noteq> 200 then e = TransportError (status r) (text_body r)
         else e = MalformedResponseError \<and> page_of out = None)))"
  by (cases out) (auto simp: Let_def split: response_json.splits if_splits)

lemma continues_appended:
  assumes "continues limit n out"
  shows "appended limit n out \<noteq> [] \<and> int (n + length (appended limit n out)) < limit"
proof -
  from assms obtain memos tk where p: "page_of out = Some (memos, tk)" and ne: "memos \<noteq> []"
    and lt: "int (n + length (appended limit n out)) < limit"
    by (auto simp: continues_def split: option.splits)
  from lt have "int n < limit" by simp
  with ne have "js_slice0 memos (min (int (length memos)) (limit - int n)) \<noteq> []"
    by (cases memos) (auto simp: js_slice0_def Let_def)
  with p lt show ?thesis by (simp add: appended_def)
qed

lemma fetch_loop_cases:
  assumes "fetch_loop requestUrl svc ps a t w = (r, exs, w')"
  shows "\<exists>ex. accumulated ex = length a \<and> sent ex = page_request svc ps t
           \<and> received ex = fst (requestUrl (sent ex) w)
           \<and> ((exs = [ex] \<and> w' = snd (requestUrl (sent ex) w)
                \<and> (case r of Inl e \<Rightarrow> page_step (syncLimit svc) a (received ex) = Throw e
                           | Inr res \<Rightarrow> page_step (syncLimit svc) a (received ex) = Break res))
              \<or> (\<exists>rest a' t'. exs = ex # rest
                    \<and> page_step (syncLimit svc) a (received ex) = Continue a' t'
                    \<and> fetch_loop requestUrl svc ps a' t' (snd (requestUrl (sent ex) w)) = (r, rest, w')))"
proof -
  obtain out w1 where tr: "requestUrl (page_request svc ps t) w = (out, w1)" by fastforce
  let ?ex = "\<lparr>accumulated = length a, sent = page_request svc ps t, received = out\<rparr>"
  from assms tr have "(exs = [?ex] \<and> w' = w1
                \<and> (case r of Inl e \<Rightarrow> page_step (syncLimit svc) a out = Throw e
                           | Inr res \<Rightarrow> page_step (syncLimit svc) a out = Break res))
              \<or> (\<exists>rest a' t'. exs = ?ex # rest
                    \<and> page_step (syncLimit svc) a out = Continue a' t'
                    \<and> fetch_loop requestUrl svc ps a' t' w1 = (r, rest, w'))"
    by (cases "page_step (syncLimit svc) a out")
       (auto simp: fetch_loop_unfold[where requestUrl=requestUrl, OF tr] split: prod.splits)
  with tr show ?thesis by (intro exI[of _ ?ex]) (auto split: sum.splits)
qed

lemma fetch_loop_nonempty:
  "fetch_loop requestUrl svc ps a t w = (r, exs, w') \<Longrightarrow> exs \<noteq> [] \<and> accumulated (hd exs) = length a"
  by (drule fetch_loop_cases) auto

lemma fetch_loop_continues:
  "fetch_loop requestUrl svc ps a t w = (r, exs, w') \<Longrightarrow> Suc i < length exs
   \<Longrightarrow> continues (syncLimit svc) (accumulated (exs ! i)) (received (exs ! i))
       \<and> accumulated (exs ! Suc i)
           = accumulated (exs ! i) + length (appended (syncLimit svc) (accumulated (exs ! i)) (received (exs ! i)))"
proof (induction exs arbitrary: a t w i)
  case Nil
  then show ?case by simp
next
  case (Cons ex rest)
  from fetch_loop_cases [OF Cons.prems(1)] Cons.prems(2)
  obtain a' t' w1 where ex: "accumulated ex = length a"
      "page_step (syncLimit svc) a (received ex) = Continue a' t'"
      "fetch_loop requestUrl svc ps a' t' w1 = (r, rest, w')"
    by auto
  from fetch_loop_nonempty [OF ex(3)] have hd: "rest \<noteq> [] \<and> accumulated (hd rest) = length a'" .
  from ex(2) ex(1) have c: "continues (syncLimit svc) (accumulated ex) (received ex)
      \<and> a' = a @ appended (syncLimit svc) (accumulated ex) (received ex)"
    by (simp add: page_step_Continue_iff)
  show ?case
  proof (cases i)
    case 0
    with ex hd c show ?thesis by (cases rest) auto
  next
    case (Suc j)
    with Cons.prems(2) have j: "Suc j < length rest" by simp
    from Cons.IH [OF ex(3) j] Suc show ?thesis by simp
  qed
qed

lemma fetch_loop_accumulator:
  "fetch_loop requestUrl svc ps a t w = (Inr acc, exs, w')
   \<Longrightarrow> acc = a @ concat (map (\<lambda>ex. appended (syncLimit svc) (accumulated ex) (received ex)) exs)"
proof (induction exs arbitrary: a t w)
  case Nil
  then show ?case by (auto dest: fetch_loop_nonempty)
next
  case (Cons ex rest)
  from fetch_loop_cases [OF Cons.prems]
  consider (stop) "rest = []" "accumulated ex = length a" "page_step (syncLimit svc) a (received ex) = Break acc"
    | (continue) a' t' w1 where "accumulated ex = length a"
      "page_step (syncLimit svc) a (received ex) = Continue a' t'"
      "fetch_loop requestUrl svc ps a' t' w1 = (Inr acc, rest, w')"
    by auto
  then show ?case
  proof cases
    case stop
    then show ?thesis by (auto dest: page_step_Break)
  next
    case continue
    from Cons.IH [OF continue(3)] continue(1,2) show ?thesis
      by (simp add: page_step_Continue_iff)
  qed
qed

lemma fetch_loop_last:
  "fetch_loop requestUrl svc ps a t w = (r, exs, w')
   \<Longrightarrow> (case r of
          Inl e \<Rightarrow> page_step (syncLimit svc) [] (received (last exs)) = Throw e
        | Inr acc \<Rightarrow> page_of (received (last exs)) \<noteq> None
                     \<and> \<not> continues (syncLimit svc) (accumulated (last exs)) (received (last exs)))"
proof (induction exs arbitrary: a t w)
  case Nil
  then show ?case by (auto dest: fetch_loop_nonempty)
next
  case (Cons ex rest)
  from fetch_loop_cases [OF Cons.prems]
  consider (stop) "rest = []" "accumulated ex = length a"
      "case r of Inl e \<Rightarrow> page_step (syncLimit svc) a (received ex) = Throw e
               | Inr res \<Rightarrow> page_step (syncLimit svc) a (received ex) = Break res"
    | (continue) a' t' w1 where "fetch_loop requestUrl svc ps a' t' w1 = (r, rest, w')"
    by auto
  then show ?case
  proof cases
    case stop
    then show ?thesis by (auto simp: page_step_Throw dest: page_step_Break split: sum.splits)
  next
    case continue
    from Cons.IH [OF continue] fetch_loop_nonempty [OF continue] show ?thesis
      by (simp split: sum.splits)
  qed
qed

lemma fetch_loop_length:
  "fetch_loop requestUrl svc ps a t w = (r, exs, w')
   \<Longrightarrow> int (length exs) \<le> max 1 (syncLimit svc - int (length a))"
proof (induction exs arbitrary: a t w)
  case Nil
  then show ?case by simp
next
  case (Cons ex rest)
  from fetch_loop_cases [OF Cons.prems]
  consider (stop) "rest = []"
    | (continue) a' t' w1 where "accumulated ex = length a"
      "page_step (syncLimit svc) a (received ex) = Continue a' t'"
      "fetch_loop requestUrl svc ps a' t' w1 = (r, rest, w')"
    by auto
  then show ?case
  proof cases
    case stop
    then show ?thesis by simp
  next
    case continue
    from continue(2) have "continues (syncLimit svc) (length a) (received ex)"
      and a': "a' = a @ appended (syncLimit svc) (length a) (received ex)"
      by (simp_all add: page_step_Continue_iff)
    then have "appended (syncLimit svc) (length a) (received ex) \<noteq> []" and "int (length a') < syncLimit svc"
      by (auto dest: continues_appended)
    with a' Cons.IH [OF continue(3)] show ?thesis by (cases "appended (syncLimit svc) (length a) (received ex)") auto
  qed
qed

lemma fetch_loop_requests:
  "fetch_loop requestUrl svc ps a t w = (r, exs, w') \<Longrightarrow> ex \<in> set exs
   \<Longrightarrow> \<exists>tk. sent ex = page_request svc ps tk"
proof (induction exs arbitrary: a t w)
  case Nil
  then show ?case by simp
next
  case (Cons e rest)
  from fetch_loop_cases [OF Cons.prems(1)]
  consider (stop) "rest = []" "sent e = page_request svc ps t"
    | (continue) a' t' w1 where "sent e = page_request svc ps t"
      "fetch_loop requestUrl svc ps a' t' w1 = (r, rest, w')"
    by auto
  then show ?case
  proof cases
    case stop
    with Cons.prems(2) show ?thesis by auto
  next
    case continue
    with Cons.prems(2) Cons.IH [OF continue(2)] show ?thesis by auto
  qed
qed


text \<open>
  The trace is the transport's own history: every exchange holds what the transport
  answered to that request in the state it was in, and the final state is the state after
  exactly these calls.
\<close>

lemma fetch_loop_calls:
  "fetch_loop requestUrl svc ps a t w = (r, exs, w')
   \<Longrightarrow> w' = foldl (\<lambda>w ex. snd (requestUrl (sent ex) w)) w exs
       \<and> (\<forall>i<length exs. received (exs ! i)
              = fst (requestUrl (sent (exs ! i)) (foldl (\<lambda>w ex. snd (requestUrl (sent ex) w)) w (take i exs))))"
proof (induction exs arbitrary: a t w)
  case Nil
  then show ?case by (auto dest: fetch_loop_nonempty)
next
  case (Cons ex rest)
  from fetch_loop_cases [OF Cons.prems]
  consider (stop) "rest = []" "received ex = fst (requestUrl (sent ex) w)"
      "w' = snd (requestUrl (sent ex) w)"
    | (continue) a' t' where "received ex = fst (requestUrl (sent ex) w)"
      "fetch_loop requestUrl svc ps a' t' (snd (requestUrl (sent ex) w)) = (r, rest, w')"
    by auto
  then show ?case
  proof cases
    case stop
    then show ?thesis by simp
  next
    case continue
    from Cons.IH [OF continue(2)] continue(1) show ?thesis
      by (auto simp: less_Suc_eq_0_disj)
  qed
qed

lemma fetchAllMemos_cases:
  "(\<not> js_includes (apiUrl svc) ''/api/v1''
      \<and> fetchAllMemos getTime requestUrl svc w = (Inl ConfigurationError, [], w))
   \<or> (js_includes (apiUrl svc) ''/api/v1''
      \<and> (\<exists>r0 exs w'. fetch_loop requestUrl svc (min 100 (syncLimit svc)) [] None w = (r0, exs, w')
           \<and> fetchAllMemos getTime requestUrl svc w =
               ((case r0 of Inl e \<Rightarrow> Inl (rethrown svc e)
                          | Inr acc \<Rightarrow> Inr (js_sort (byCreateTimeDesc getTime) acc)), exs, w')))"
proof (cases "js_includes (apiUrl svc) ''/api/v1''")
  case False
  then show ?thesis by (simp add: fetchAllMemos_def fetchAllMemos_try_def)
next
  case True
  obtain r0 exs w' where "fetch_loop requestUrl svc (min 100 (syncLimit svc)) [] None w = (r0, exs, w')"
    using prod_cases3 by blast
  with True show ?thesis
    by (cases r0) (simp_all add: fetchAllMemos_def fetchAllMemos_try_def rethrown_def)
qed

lemma mset_sort_insert: "mset (sort_insert cmp x ys) = add_mset x (mset ys)"
  by (induction ys) simp_all

lemma mset_js_sort: "mset (js_sort cmp xs) = mset xs"
  by (induction xs) (simp_all add: js_sort_def mset_sort_insert)

lemma sort_insert_insort_key:
  assumes "getTime (createTime x) \<noteq> None" and "\<forall>y\<in>set ys. getTime (createTime y) \<noteq> None"
  shows "sort_insert (byCreateTimeDesc getTime) x ys
         = insort_key (\<lambda>m. - the (getTime (createTime m))) x ys"
  using assms by (induction ys) (auto simp: byCreateTimeDesc_def compare_sign_def)

lemma js_sort_sort_key:
  assumes "\<forall>y\<in>set xs. getTime (createTime y) \<noteq> None"
  shows "js_sort (byCreateTimeDesc getTime) xs = sort_key (\<lambda>m. - the (getTime (createTime m))) xs"
  using assms
proof (induction xs)
  case Nil
  then show ?case by (simp add: js_sort_def)
next
  case (Cons x xs)
  then have "js_sort (byCreateTimeDesc getTime) xs = sort_key (\<lambda>m. - the (getTime (createTime m))) xs"
    by simp
  moreover have "js_sort (byCreateTimeDesc getTime) (x # xs)
      = sort_insert (byCreateTimeDesc getTime) x (js_sort (byCreateTimeDesc getTime) xs)"
    by (simp add: js_sort_def)
  ultimately show ?case using Cons.prems
    by (simp add: sort_insert_insort_key)
qed

lemma js_sort_desc:
  assumes "\<forall>y\<in>set xs. getTime (createTime y) \<noteq> None"
  shows "sorted_wrt (\<lambda>a b. the (getTime (createTime a)) \<ge> the (getTime (createTime b)))
           (js_sort (byCreateTimeDesc getTime) xs)"
proof -
  have "sorted (map (\<lambda>m. - the (getTime (createTime m))) (sort_key (\<lambda>m. - the (getTime (createTime m))) xs))"
    by (rule sorted_sort_key)
  then show ?thesis
    by (simp add: js_sort_sort_key [OF assms] sorted_wrt_map)
qed

lemma js_sort_stable:
  assumes "\<forall>y\<in>set xs. getTime (createTime y) \<noteq> None"
  shows "filter (\<lambda>m. getTime (createTime m) = Some k) (js_sort (byCreateTimeDesc getTime) xs)
         = filter (\<lambda>m. getTime (createTime m) = Some k) xs"
proof -
  let ?f = "\<lambda>m. - the (getTime (createTime m))"
  have eq: "filter (\<lambda>m. getTime (createTime m) = Some k) ys = filter (\<lambda>m. ?f m = - k) ys"
    if "set ys = set xs" for ys
    using that assms by (intro filter_cong) auto
  have "filter (\<lambda>m. ?f m = - k) (sort_key ?f xs) = filter (\<lambda>m. ?f m = - k) xs"
    by (rule sort_key_stable)
  then show ?thesis
    by (simp add: js_sort_sort_key [OF assms] eq)
qed

lemma appended_take:
  "int n \<le> limit \<Longrightarrow> appended limit n out = take (nat (limit - int n)) (page_memos out)"
  by (auto simp: appended_def page_memos_def js_slice0_def Let_def min_def split: option.splits)

lemma fetch_loop_within_limit:
  "fetch_loop requestUrl svc ps a t w = (r, exs, w') \<Longrightarrow> int (length a) \<le> syncLimit svc
   \<Longrightarrow> (\<forall>ex\<in>set exs. int (accumulated ex) \<le> syncLimit svc)
       \<and> (\<forall>acc. r = Inr acc \<longrightarrow> int (length acc) \<le> syncLimit svc)"
proof (induction exs arbitrary: a t w)
  case Nil
  then show ?case by (auto dest: fetch_loop_nonempty)
next
  case (Cons ex rest)
  from fetch_loop_cases [OF Cons.prems(1)]
  consider (stop) "rest = []" "accumulated ex = length a"
      "case r of Inl e \<Rightarrow> page_step (syncLimit svc) a (received ex) = Throw e
               | Inr res \<Rightarrow> page_step (syncLimit svc) a (received ex) = Break res"
    | (continue) a' t' w1 where "accumulated ex = length a"
      "page_step (syncLimit svc) a (received ex) = Continue a' t'"
      "fetch_loop requestUrl svc ps a' t' w1 = (r, rest, w')"
    by auto
  then show ?case
  proof cases
    case stop
    with Cons.prems(2) show ?thesis
      by (auto dest!: page_step_Break simp: appended_take split: sum.splits)
  next
    case continue
    from continue(2) have "int (length a') < syncLimit svc"
      by (auto simp: page_step_Continue_iff dest: continues_appended)
    with Cons.IH [OF continue(3)] continue(1) Cons.prems(2) show ?thesis by simp
  qed
qed


lemma js_includes_iff: "js_includes s p \<longleftrightarrow> (\<exists>a b. s = a @ p @ b)"
proof (induction s)
  case Nil
  then show ?case by auto
next
  case (Cons c cs)
  have "starts_with (c # cs) p \<longleftrightarrow> (\<exists>b. c # cs = p @ b)"
    by (metis append_eq_conv_conj starts_with.simps)
  moreover have "(\<exists>a b. c # cs = a @ p @ b) \<longleftrightarrow> (\<exists>b. c # cs = p @ b) \<or> (\<exists>a b. cs = a @ p @ b)"
  proof
    assume "\<exists>a b. c # cs = a @ p @ b"
    then obtain a b where ab: "c # cs = a @ p @ b" by blast
    show "(\<exists>b. c # cs = p @ b) \<or> (\<exists>a b. cs = a @ p @ b)"
    proof (cases a)
      case Nil
      with ab show ?thesis by auto
    next
      case (Cons x xs)
      with ab have "cs = xs @ p @ b" by simp
      then show ?thesis by blast
    qed
  next
    assume "(\<exists>b. c # cs = p @ b) \<or> (\<exists>a b. cs = a @ p @ b)"
    then show "\<exists>a b. c # cs = a @ p @ b"
    proof
      assume "\<exists>b. c # cs = p @ b"
      then show ?thesis by (metis append_Nil)
    next
      assume "\<exists>a b. cs = a @ p @ b"
      then obtain a b where "cs = a @ p @ b" by blast
      then have "c # cs = (c # a) @ p @ b" by simp
      then show ?thesis by blast
    qed
  qed
  ultimately show ?case using Cons.IH by simp
qed

lemma js_split_unsplit: "sep \<notin> set s \<Longrightarrow> js_split sep s = [s]"
  by (induction s) auto

lemma js_split_nonempty: "js_split sep s \<noteq> []"
  by (induction s) (auto split: list.splits)

lemma js_split_many: "sep \<in> set s \<Longrightarrow> \<exists>p q qs. js_split sep s = p # q # qs"
proof (induction s)
  case Nil
  then show ?case by simp
next
  case (Cons c cs)
  show ?case
  proof (cases "c = sep")
    case True
    then show ?thesis using js_split_nonempty [of sep cs] by (cases "js_split sep cs") auto
  next
    case False
    with Cons.prems have "sep \<in> set cs" by simp
    from Cons.IH [OF this] False show ?thesis by auto
  qed
qed

lemma last_js_split: "last (js_split sep s) = rev (takeWhile (\<lambda>c. c \<noteq> sep) (rev s))"
proof (induction s)
  case Nil
  then show ?case by simp
next
  case (Cons c cs)
  show ?case
  proof (cases "sep \<in> set cs")
    case True
    from js_split_many [OF True] obtain p q qs where s: "js_split sep cs = p # q # qs" by blast
    then have "last (js_split sep (c # cs)) = last (js_split sep cs)" by simp
    also have "\<dots> = rev (takeWhile (\<lambda>c. c \<noteq> sep) (rev cs))" by (rule Cons.IH)
    also from True have "\<dots> = rev (takeWhile (\<lambda>c. c \<noteq> sep) (rev (c # cs)))"
      by (simp add: takeWhile_append1)
    finally show ?thesis .
  next
    case False
    then have tw: "takeWhile (\<lambda>c. c \<noteq> sep) (rev cs) = rev cs"
      by (auto simp: takeWhile_eq_all_conv)
    from False have "takeWhile (\<lambda>c. c \<noteq> sep) (rev cs @ [c]) = rev cs @ takeWhile (\<lambda>c. c \<noteq> sep) [c]"
      by (subst takeWhile_append2) auto
    with False show ?thesis by (simp add: js_split_unsplit)
  qed
qed

lemma attachmentId_final_segment:
  "attachmentId res = (if final_segment (name res) \<noteq> [] then final_segment (name res) else name res)"
  by (simp add: attachmentId_def js_pop_def js_split_nonempty last_js_split final_segment_def)

lemma js_replace_suffix:
  assumes "\<not> js_includes (b @ butlast p) p" and "p \<noteq> []"
  shows "js_replace p [] (b @ p) = b"
  using assms(1)
proof (induction b)
  case Nil
  from assms(2) show ?case by (cases p) simp_all
next
  case (Cons c cs)
  have "\<not> starts_with (c # cs @ p) p"
  proof
    assume "starts_with (c # cs @ p) p"
    then have "take (length p) ((c # cs) @ p) = p" by simp
    moreover have "take (length p - length (c # cs)) (butlast p) = take (length p - length (c # cs)) p"
      by (simp add: butlast_conv_take min_def)
    then have "take (length p) ((c # cs) @ p) = take (length p) ((c # cs) @ butlast p)"
      by (simp only: take_append)
    ultimately have "starts_with ((c # cs) @ butlast p) p" by simp
    with Cons.prems show False by simp
  qed
  moreover from Cons.prems have "\<not> js_includes (cs @ butlast p) p" by simp
  ultimately show ?case using Cons.IH by simp
qed


lemma digit_nth_mem: "k < 10 \<Longrightarrow> ''0123456789'' ! k \<in> set ''0123456789''"
  by (intro nth_mem) simp

lemma nat_toString_small: "n < 10 \<Longrightarrow> nat_toString n = [''0123456789'' ! n]"
  by (subst nat_toString.simps) simp

lemma nat_toString_large: "\<not> n < 10 \<Longrightarrow> nat_toString n = nat_toString (n div 10) @ [''0123456789'' ! (n mod 10)]"
  by (subst nat_toString.simps) simp

lemma nat_toString_digits: "set (nat_toString n) \<subseteq> set ''0123456789''"
proof (induction n rule: less_induct)
  case (less n)
  define D where "D = set ''0123456789''"
  show ?case
  proof (cases "n < 10")
    case True
    from digit_nth_mem [OF True] have "''0123456789'' ! n \<in> D" by (simp only: D_def)
    then have "set [''0123456789'' ! n] \<subseteq> D" by (simp only: list.set) blast
    then show ?thesis by (simp only: nat_toString_small [OF True] D_def)
  next
    case False
    then have "n div 10 < n" by simp
    then have "set (nat_toString (n div 10)) \<subseteq> D" unfolding D_def by (rule less.IH)
    moreover have "''0123456789'' ! (n mod 10) \<in> D" unfolding D_def by (rule digit_nth_mem) simp
    ultimately have "set (nat_toString (n div 10) @ [''0123456789'' ! (n mod 10)]) \<subseteq> D"
      by (simp only: set_append list.set) blast
    then show ?thesis by (simp only: nat_toString_large [OF False] D_def)
  qed
qed

lemma digits_unreserved:
  "list_all (\<lambda>c. alphanumeric c \<or> c \<in> set ''*-._'') ''-0123456789''"
  by code_simp

lemma form_urlencode_plain:
  assumes "set s \<subseteq> set ''-0123456789''"
  shows "form_urlencode s = s"
  using assms
proof (induction s)
  case Nil
  then show ?case by (simp add: form_urlencode_def)
next
  case (Cons c cs)
  from Cons.prems have c: "c \<in> set ''-0123456789''" and cs: "set cs \<subseteq> set ''-0123456789''"
    by (simp_all only: list.set(2) insert_subset)
  from digits_unreserved c have "alphanumeric c \<or> c \<in> set ''*-._''"
    unfolding list_all_iff by blast
  moreover from Cons.IH [OF cs] have "form_urlencode cs = cs" .
  ultimately show ?case unfolding form_urlencode_def by simp
qed

lemma int_toString_chars: "set (int_toString i) \<subseteq> set ''-0123456789''"
proof -
  have sub: "set ''0123456789'' \<subseteq> set ''-0123456789''"
    by (simp only: list.set(2)) blast
  have "set (nat_toString k) \<subseteq> set ''-0123456789''" for k
    using nat_toString_digits [of k] sub by (rule subset_trans)
  moreover have "CHR ''-'' \<in> set ''-0123456789''" by (simp only: list.set(2)) blast
  ultimately show ?thesis
    by (simp only: int_toString_def list.set(2) insert_subset split: if_split) blast
qed

lemma form_urlencode_int_toString: "form_urlencode (int_toString i) = int_toString i"
  by (rule form_urlencode_plain) (rule int_toString_chars)

lemma form_urlencode_keys:
  "form_urlencode ''state'' = ''state''" "form_urlencode ''NORMAL'' = ''NORMAL''"
  "form_urlencode ''pageSize'' = ''pageSize''" "form_urlencode ''pageToken'' = ''pageToken''"
  by code_simp+

lemma url_page_request:
  "url (page_request svc ps tk) =
     apiUrl svc @ ''/memos?state=NORMAL&pageSize='' @ int_toString ps
       @ (case tk of None \<Rightarrow> [] | Some t \<Rightarrow> if t \<noteq> [] then ''&pageToken='' @ form_urlencode t else [])"
proof -
  have two: "params_toString [(''state'', ''NORMAL''), (''pageSize'', int_toString ps)]
      = ''state=NORMAL&pageSize='' @ int_toString ps"
    by (simp only: params_toString.simps form_urlencode_keys form_urlencode_int_toString) simp
  have three: "params_toString [(''state'', ''NORMAL''), (''pageSize'', int_toString ps), (''pageToken'', t)]
      = ''state=NORMAL&pageSize='' @ int_toString ps @ ''&pageToken='' @ form_urlencode t" for t
    by (simp only: params_toString.simps form_urlencode_keys form_urlencode_int_toString) simp
  show ?thesis
  proof (cases tk)
    case None
    then show ?thesis using two by (simp add: page_request_def Let_def del: params_toString.simps)
  next
    case (Some t)
    then show ?thesis using two three [of t]
      by (cases "t = []") (simp_all add: page_request_def Let_def del: params_toString.simps)
  qed
qed

lemma fetch_split:
  "fetchAllMemos getTime requestUrl svc w
     = (fetch_result getTime requestUrl svc w, fetch_trace getTime requestUrl svc w,
        snd (snd (fetchAllMemos getTime requestUrl svc w)))"
  by (simp add: fetch_result_def fetch_trace_def)

lemma fetch_run:
  obtains (config) "\<not> js_includes (apiUrl svc) ''/api/v1''"
      "fetch_result getTime requestUrl svc w = Inl ConfigurationError"
      "fetch_trace getTime requestUrl svc w = []"
  | (looped) r0 w' where "js_includes (apiUrl svc) ''/api/v1''"
      "fetch_loop requestUrl svc (min 100 (syncLimit svc)) [] None w
         = (r0, fetch_trace getTime requestUrl svc w, w')"
      "fetch_result getTime requestUrl svc w
         = (case r0 of Inl e \<Rightarrow> Inl (rethrown svc e)
                     | Inr acc \<Rightarrow> Inr (js_sort (byCreateTimeDesc getTime) acc))"
  using fetchAllMemos_cases [of svc getTime requestUrl w]
  by (auto simp: fetch_result_def fetch_trace_def)

lemma page_of_not_thrown: "page_of out = Some p \<Longrightarrow> page_step limit a out \<noteq> Throw e"
  by (cases out) (auto simp: Let_def split: if_splits response_json.splits)

lemma downloadResource_eq:
  assumes "requestUrl (download_request svc res) w = (out, w')"
  shows "downloadResource requestUrl svc res w
     = (Inr (case out of Threw e \<Rightarrow> None
                | Responded r \<Rightarrow> if status r \<noteq> 200 then None else arrayBuffer r),
        [download_request svc res], w')"
proof (cases out)
  case (Threw e)
  with assms show ?thesis by (simp add: downloadResource_def downloadResource_try_def)
next
  case (Responded r)
  with assms show ?thesis
    by (cases "arrayBuffer r") (simp_all add: downloadResource_def downloadResource_try_def Let_def)
qed

text \<open>
  On an integer limit the numeric model does what the integer model does, once the fuel
  covers the requests of the run.
\<close>

lemma to_integer_of_int [simp]: "to_integer (of_int k) = k"
  by (simp add: to_integer_def)

lemma page_step_num_integer: "page_step_num (of_int l) a out = page_step l a out"
proof (cases out)
  case (Threw e)
  then show ?thesis by simp
next
  case (Responded r)
  have needed: "min (of_nat n) (of_int l - of_nat k) = (of_int (min (int n) (l - int k)) :: rat)" for n k
    by (simp add: min_def)
  have full: "(of_int l \<le> (of_nat n :: rat)) = (l \<le> int n)" for n
    by (metis of_int_le_iff of_int_of_nat_eq)
  from Responded show ?thesis
    by (simp only: page_step_num.simps page_step.simps needed to_integer_of_int full Let_def)
qed

lemma number_toString_integer: "number_toString f (of_int k) = int_toString k"
  by (simp add: number_toString_def)

lemma page_request_num_integer:
  "page_request_num f (as_number svc) (of_int ps) t = page_request svc ps t"
  by (simp add: page_request_num_def page_request_def number_toString_integer as_number_def)

lemma fetch_loop_num_integer:
  "fetch_loop requestUrl svc ps a t w = (r, exs, w') \<Longrightarrow> length exs \<le> fuel
   \<Longrightarrow> fetch_loop_num fuel f requestUrl (as_number svc) (of_int ps) a t w = (Some r, exs, w')"
proof (induction fuel arbitrary: a t w r exs w')
  case 0
  then show ?case by (auto dest: fetch_loop_nonempty)
next
  case (Suc fuel)
  obtain out w1 where tr: "requestUrl (page_request svc ps t) w = (out, w1)" by fastforce
  have limit_eq: "syncLimit (as_number svc) = of_int (syncLimit svc)" by (simp add: as_number_def)
  show ?case
  proof (cases "page_step (syncLimit svc) a out")
    case (Break res)
    with Suc.prems(1) tr show ?thesis
      by (simp add: fetch_loop_unfold [where requestUrl = requestUrl, OF tr]
          page_request_num_integer limit_eq page_step_num_integer)
  next
    case (Throw e)
    with Suc.prems(1) tr show ?thesis
      by (simp add: fetch_loop_unfold [where requestUrl = requestUrl, OF tr]
          page_request_num_integer limit_eq page_step_num_integer)
  next
    case (Continue a' t')
    obtain r1 rest w2 where rec: "fetch_loop requestUrl svc ps a' t' w1 = (r1, rest, w2)"
      using prod_cases3 by blast
    with Suc.prems(1) tr Continue have eq: "r = r1" "w' = w2"
      "exs = \<lparr>accumulated = length a, sent = page_request svc ps t, received = out\<rparr> # rest"
      by (simp_all add: fetch_loop_unfold [where requestUrl = requestUrl, OF tr])
    with Suc.prems(2) have "length rest \<le> fuel" by simp
    from Suc.IH [OF rec this] eq tr Continue show ?thesis
      by (simp add: page_request_num_integer limit_eq page_step_num_integer)
  qed
qed

lemma fetchAllMemos_num_integer:
  assumes "fetchAllMemos getTime requestUrl svc w = (r, exs, w')" and "length exs \<le> fuel"
  shows "fetchAllMemos_num fuel getTime f requestUrl (as_number svc) w = (Some r, exs, w')"
proof -
  have url: "apiUrl (as_number svc) = apiUrl svc" by (simp add: as_number_def)
  have size: "min 100 (syncLimit (as_number svc)) = of_int (min 100 (syncLimit svc))"
    by (simp add: as_number_def min_def)
  from fetchAllMemos_cases [of svc getTime requestUrl w] show ?thesis
  proof
    assume "\<not> js_includes (apiUrl svc) ''/api/v1''
      \<and> fetchAllMemos getTime requestUrl svc w = (Inl ConfigurationError, [], w)"
    with assms(1) have "r = Inl ConfigurationError" "exs = []" "w' = w"
      and "\<not> js_includes (apiUrl svc) ''/api/v1''" by simp_all
    then show ?thesis
      by (simp add: fetchAllMemos_num_def fetchAllMemos_num_try_def url)
  next
    assume "js_includes (apiUrl svc) ''/api/v1''
      \<and> (\<exists>r0 exs w'. fetch_loop requestUrl svc (min 100 (syncLimit svc)) [] None w = (r0, exs, w')
           \<and> fetchAllMemos getTime requestUrl svc w =
               ((case r0 of Inl e \<Rightarrow> Inl (rethrown svc e)
                          | Inr acc \<Rightarrow> Inr (js_sort (byCreateTimeDesc getTime) acc)), exs, w'))"
    with assms(1) obtain r0 where inc: "js_includes (apiUrl svc) ''/api/v1''"
      and loop: "fetch_loop requestUrl svc (min 100 (syncLimit svc)) [] None w = (r0, exs, w')"
      and r: "r = (case r0 of Inl e \<Rightarrow> Inl (rethrown svc e)
                          | Inr acc \<Rightarrow> Inr (js_sort (byCreateTimeDesc getTime) acc))"
      by auto
    from fetch_loop_num_integer [OF loop assms(2), of f] inc r show ?thesis
      by (cases r0) (simp_all add: fetchAllMemos_num_def fetchAllMemos_num_try_def url size rethrown_def)
  qed
qed

lemma fetch_bounded_by_integer_limit:
  assumes "1 \<le> syncLimit svc"
  shows "\<exists>r exs w'. fetchAllMemos getTime requestUrl svc w = (r, exs, w')
     \<and> int (length exs) \<le> syncLimit svc
     \<and> (\<forall>i. Suc i < length exs \<longrightarrow> accumulated (exs ! i) < accumulated (exs ! Suc i))"
proof -
  let ?exs = "fetch_trace getTime requestUrl svc w"
  have "int (length ?exs) \<le> syncLimit svc
      \<and> (\<forall>i. Suc i < length ?exs \<longrightarrow> accumulated (?exs ! i) < accumulated (?exs ! Suc i))"
  proof (cases getTime requestUrl svc w rule: fetch_run)
    case config
    with assms show ?thesis by simp
  next
    case (looped r0 w')
    from fetch_loop_length [OF looped(2)] assms have "int (length ?exs) \<le> syncLimit svc" by simp
    moreover have "accumulated (?exs ! i) < accumulated (?exs ! Suc i)" if "Suc i < length ?exs" for i
      using fetch_loop_continues [OF looped(2) that] continues_appended by fastforce
    ultimately show ?thesis by blast
  qed
  with fetch_split [of getTime requestUrl svc w] show ?thesis by blast
qed

text \<open>
  With a limit of two and a half and a server that always sends one memo and a token, the
  accumulator stays at two items and the loop never leaves.
\<close>

lemma fractional_step:
  "page_step_num (5 / 2) a demo_one_more =
     Continue (if length a < 2 then a @ [memo ''2024-01-01T00:00:00Z'' ''a''] else a) (Some ''next'')"
  if "length a \<le> 2"
proof -
  from that consider "length a = 0" | "length a = 1" | "length a = 2" by linarith
  then show ?thesis
    by cases (simp_all add: demo_one_more_def page_def js_slice0_def to_integer_def truthy_def Let_def)
qed

lemma fractional_limit_stuck:
  "length a \<le> 2 \<Longrightarrow>
   \<exists>exs w'. fetch_loop_num fuel f (endless demo_one_more) demo_fractional ps a t w = (None, exs, w')
     \<and> length exs = fuel"
proof (induction fuel arbitrary: a t w)
  case 0
  then show ?case by simp
next
  case (Suc fuel)
  define a' where "a' = (if length a < 2 then a @ [memo ''2024-01-01T00:00:00Z'' ''a''] else a)"
  from Suc.prems have "length a' \<le> 2" by (simp add: a'_def)
  from Suc.IH [OF this, of "Some ''next''" "Suc w"]
  obtain exs w' where rec: "fetch_loop_num fuel f (endless demo_one_more) demo_fractional ps a' (Some ''next'') (Suc w)
      = (None, exs, w')" and len: "length exs = fuel" by blast
  have "syncLimit demo_fractional = 5 / 2" by (simp add: demo_fractional_def)
  then have step: "page_step_num (syncLimit demo_fractional) a demo_one_more = Continue a' (Some ''next'')"
    by (simp only: fractional_step [OF Suc.prems] a'_def)
  have tr: "endless demo_one_more req w = (demo_one_more, Suc w)" for req
    by (simp add: endless_def)
  from rec len show ?case
    by (simp add: Let_def tr step)
qed

lemma fractional_limit_never_returns:
  "fst (fetchAllMemos_num fuel demo_getTime demo_fraction_toString (endless demo_one_more) demo_fractional w) = None
   \<and> length (fst (snd (fetchAllMemos_num fuel demo_getTime demo_fraction_toString
         (endless demo_one_more) demo_fractional w))) = fuel"
proof -
  have inc: "js_includes (apiUrl demo_fractional) ''/api/v1''" by code_simp
  from fractional_limit_stuck [of "[]" fuel demo_fraction_toString "min 100 (syncLimit demo_fractional)" None w]
  obtain exs w' where "fetch_loop_num fuel demo_fraction_toString (endless demo_one_more) demo_fractional
      (min 100 (syncLimit demo_fractional)) [] None w = (None, exs, w')" and "length exs = fuel"
    by auto
  with inc show ?thesis by (simp add: fetchAllMemos_num_def fetchAllMemos_num_try_def)
qed

subsection \<open>Specified properties\<close>

text \<open>
  C1. For every positive \<^verbatim>\<open>syncLimit\<close> and every behaviour of the server, a call of
  \<^verbatim>\<open>fetchAllMemos\<close> that returns a list returns at most \<^verbatim>\<open>syncLimit\<close> items. The list
  holds exactly the items pushed in the course of the run, and what each page contributes
  is the page cut to the budget that remained when its request was built.
\<close>

theorem fetch_at_most_syncLimit:
  assumes "0 < syncLimit svc" and "fetch_result getTime requestUrl svc w = Inr ms"
  shows "int (length ms) \<le> syncLimit svc
     \<and> mset ms = mset (fetched (syncLimit svc) (fetch_trace getTime requestUrl svc w))
     \<and> (\<forall>ex\<in>set (fetch_trace getTime requestUrl svc w).
           appended (syncLimit svc) (accumulated ex) (received ex)
             = take (nat (syncLimit svc - int (accumulated ex))) (page_memos (received ex)))"
proof (cases getTime requestUrl svc w rule: fetch_run)
  case config
  with assms(2) show ?thesis by simp
next
  case (looped r0 w')
  from looped(3) assms(2) obtain acc where r0: "r0 = Inr acc"
    and ms: "ms = js_sort (byCreateTimeDesc getTime) acc"
    by (cases r0) auto
  from assms(1) have "int (length ([] :: 'a memo_item_scheme list)) \<le> syncLimit svc" by simp
  from fetch_loop_within_limit [OF looped(2) this] r0
  have within: "\<forall>ex\<in>set (fetch_trace getTime requestUrl svc w). int (accumulated ex) \<le> syncLimit svc"
    and len: "int (length acc) \<le> syncLimit svc"
    by simp_all
  from fetch_loop_accumulator [OF looped(2) [unfolded r0]]
  have "acc = fetched (syncLimit svc) (fetch_trace getTime requestUrl svc w)"
    by (simp add: fetched_def)
  with ms have "mset ms = mset (fetched (syncLimit svc) (fetch_trace getTime requestUrl svc w))"
    by (simp add: mset_js_sort)
  moreover from ms len have "int (length ms) \<le> syncLimit svc"
    using mset_js_sort [of "byCreateTimeDesc getTime" acc] by (metis size_mset)
  ultimately show ?thesis using within by (simp add: appended_take)
qed

theorem fetch_at_most_syncLimit_witness:
  "0 < syncLimit demo_service
   \<and> fetch_result demo_getTime (replay demo_pages) demo_service 0
       = Inr [memo ''2024-01-03T00:00:00Z'' ''b'', memo ''2024-01-01T00:00:00Z'' ''a'',
              memo ''2024-01-01T00:00:00Z'' ''c'']
   \<and> int (length [memo ''2024-01-03T00:00:00Z'' ''b'', memo ''2024-01-01T00:00:00Z'' ''a'',
                    memo ''2024-01-01T00:00:00Z'' ''c'']) \<le> syncLimit demo_service"
proof -
  have h1: "0 < syncLimit demo_service" by code_simp
  have h2: "fetch_result demo_getTime (replay demo_pages) demo_service 0
       = Inr [memo ''2024-01-03T00:00:00Z'' ''b'', memo ''2024-01-01T00:00:00Z'' ''a'',
              memo ''2024-01-01T00:00:00Z'' ''c'']" by code_simp
  from fetch_at_most_syncLimit [OF h1 h2] h1 h2 show ?thesis by blast
qed

text \<open>
  C2. If the \<open>i\<close>-th request of a run comes back as a successfully parsed page with an
  empty \<^verbatim>\<open>memos\<close> array, it is the last request of the run, whether or not the page
  carried a \<^verbatim>\<open>nextPageToken\<close>, and the call returns a list.
\<close>

theorem empty_page_stops:
  assumes "i < length (fetch_trace getTime requestUrl svc w)"
    and "page_of (received (fetch_trace getTime requestUrl svc w ! i)) = Some ([], nextPageToken)"
  shows "Suc i = length (fetch_trace getTime requestUrl svc w)
     \<and> (\<exists>ms. fetch_result getTime requestUrl svc w = Inr ms)"
proof (cases getTime requestUrl svc w rule: fetch_run)
  case config
  with assms(1) show ?thesis by simp
next
  case (looped r0 w')
  let ?exs = "fetch_trace getTime requestUrl svc w"
  have last: "Suc i = length ?exs"
  proof (rule ccontr)
    assume "Suc i \<noteq> length ?exs"
    with assms(1) have "Suc i < length ?exs" by simp
    from fetch_loop_continues [OF looped(2) this] assms(2) show False
      by (simp add: continues_def)
  qed
  with assms(1) have l: "last ?exs = ?exs ! i"
    by (metis diff_Suc_1 last_conv_nth length_greater_0_conv less_nat_zero_code list.size(3))
  from fetch_loop_last [OF looped(2)] l assms(2) obtain acc where "r0 = Inr acc"
    by (cases r0) (auto dest: page_of_not_thrown)
  with looped(3) last show ?thesis by simp
qed

theorem empty_page_stops_witness:
  "1 < length (fetch_trace demo_getTime (replay demo_empty) demo_service 0)
   \<and> page_of (received (fetch_trace demo_getTime (replay demo_empty) demo_service 0 ! 1))
       = Some ([], Some ''more'')
   \<and> Suc 1 = length (fetch_trace demo_getTime (replay demo_empty) demo_service 0)"
proof -
  have h1: "1 < length (fetch_trace demo_getTime (replay demo_empty) demo_service 0)" by code_simp
  have h2: "page_of (received (fetch_trace demo_getTime (replay demo_empty) demo_service 0 ! 1))
       = Some ([], Some ''more'')" by code_simp
  from empty_page_stops [OF h1 h2] h1 h2 show ?thesis by blast
qed

text \<open>
  C3. If the \<open>i\<close>-th request of a run comes back as a successfully parsed page that has no
  \<^verbatim>\<open>nextPageToken\<close>, or after which the accumulated count has reached \<^verbatim>\<open>syncLimit\<close>, it
  is the last request of the run.
\<close>

theorem no_token_or_full_stops:
  assumes "i < length (fetch_trace getTime requestUrl svc w)"
    and "page_of (received (fetch_trace getTime requestUrl svc w ! i)) = Some (memos, nextPageToken)"
    and "nextPageToken = None
       \<or> syncLimit svc \<le> int (accumulated (fetch_trace getTime requestUrl svc w ! i)
            + length (appended (syncLimit svc) (accumulated (fetch_trace getTime requestUrl svc w ! i))
                        (received (fetch_trace getTime requestUrl svc w ! i))))"
  shows "Suc i = length (fetch_trace getTime requestUrl svc w)"
proof (cases getTime requestUrl svc w rule: fetch_run)
  case config
  with assms(1) show ?thesis by simp
next
  case (looped r0 w')
  let ?exs = "fetch_trace getTime requestUrl svc w"
  show ?thesis
  proof (rule ccontr)
    assume "Suc i \<noteq> length ?exs"
    with assms(1) have "Suc i < length ?exs" by simp
    from fetch_loop_continues [OF looped(2) this] assms(2,3) show False
      by (auto simp: continues_def truthy_def)
  qed
qed

theorem no_token_or_full_stops_witness:
  "0 < length (fetch_trace demo_getTime (replay demo_short) demo_service 0)
   \<and> page_of (received (fetch_trace demo_getTime (replay demo_short) demo_service 0 ! 0))
       = Some ([memo ''2024-01-01T00:00:00Z'' ''a''], None)
   \<and> Suc 0 = length (fetch_trace demo_getTime (replay demo_short) demo_service 0)
   \<and> 1 < length (fetch_trace demo_getTime (replay demo_pages) demo_service 0)
   \<and> page_of (received (fetch_trace demo_getTime (replay demo_pages) demo_service 0 ! 1))
       = Some ([memo ''2024-01-01T00:00:00Z'' ''c'', memo ''2024-01-02T00:00:00Z'' ''d''], Some ''more'')
   \<and> syncLimit demo_service
       \<le> int (accumulated (fetch_trace demo_getTime (replay demo_pages) demo_service 0 ! 1)
            + length (appended (syncLimit demo_service)
                        (accumulated (fetch_trace demo_getTime (replay demo_pages) demo_service 0 ! 1))
                        (received (fetch_trace demo_getTime (replay demo_pages) demo_service 0 ! 1))))
   \<and> Suc 1 = length (fetch_trace demo_getTime (replay demo_pages) demo_service 0)"
proof -
  have a1: "0 < length (fetch_trace demo_getTime (replay demo_short) demo_service 0)" by code_simp
  have a2: "page_of (received (fetch_trace demo_getTime (replay demo_short) demo_service 0 ! 0))
       = Some ([memo ''2024-01-01T00:00:00Z'' ''a''], None)" by code_simp
  have b1: "1 < length (fetch_trace demo_getTime (replay demo_pages) demo_service 0)" by code_simp
  have b2: "page_of (received (fetch_trace demo_getTime (replay demo_pages) demo_service 0 ! 1))
       = Some ([memo ''2024-01-01T00:00:00Z'' ''c'', memo ''2024-01-02T00:00:00Z'' ''d''], Some ''more'')"
    by code_simp
  have b3: "syncLimit demo_service
       \<le> int (accumulated (fetch_trace demo_getTime (replay demo_pages) demo_service 0 ! 1)
            + length (appended (syncLimit demo_service)
                        (accumulated (fetch_trace demo_getTime (replay demo_pages) demo_service 0 ! 1))
                        (received (fetch_trace demo_getTime (replay demo_pages) demo_service 0 ! 1))))"
    by code_simp
  from no_token_or_full_stops [OF a1 a2 disjI1 [OF refl]]
    no_token_or_full_stops [OF b1 b2 disjI2 [OF b3]] a1 a2 b1 b2 b3
  show ?thesis by blast
qed

text \<open>
  C4. If every returned item has a \<^verbatim>\<open>createTime\<close> that parses, the returned list is in
  descending order of time value, and the items of any one time value stand in the order
  in which they were fetched.
\<close>

theorem result_sorted_by_createTime_desc:
  assumes "fetch_result getTime requestUrl svc w = Inr ms"
    and "\<forall>m\<in>set ms. getTime (createTime m) \<noteq> None"
  shows "sorted_wrt (\<lambda>a b. the (getTime (createTime a)) \<ge> the (getTime (createTime b))) ms
     \<and> (\<forall>k. filter (\<lambda>m. getTime (createTime m) = Some k) ms
            = filter (\<lambda>m. getTime (createTime m) = Some k)
                (fetched (syncLimit svc) (fetch_trace getTime requestUrl svc w)))"
proof (cases getTime requestUrl svc w rule: fetch_run)
  case config
  with assms(1) show ?thesis by simp
next
  case (looped r0 w')
  from looped(3) assms(1) obtain acc where r0: "r0 = Inr acc"
    and ms: "ms = js_sort (byCreateTimeDesc getTime) acc"
    by (cases r0) auto
  from fetch_loop_accumulator [OF looped(2) [unfolded r0]]
  have acc: "acc = fetched (syncLimit svc) (fetch_trace getTime requestUrl svc w)"
    by (simp add: fetched_def)
  have "set ms = set acc"
    using mset_js_sort [of "byCreateTimeDesc getTime" acc] ms by (metis set_mset_mset)
  with assms(2) have parse: "\<forall>m\<in>set acc. getTime (createTime m) \<noteq> None" by simp
  from js_sort_desc [OF parse] js_sort_stable [OF parse] ms acc show ?thesis by simp
qed

theorem result_sorted_by_createTime_desc_witness:
  "fetch_result demo_getTime (replay demo_pages) demo_service 0
       = Inr [memo ''2024-01-03T00:00:00Z'' ''b'', memo ''2024-01-01T00:00:00Z'' ''a'',
              memo ''2024-01-01T00:00:00Z'' ''c'']
   \<and> list_all (\<lambda>m. demo_getTime (createTime m) \<noteq> None)
         [memo ''2024-01-03T00:00:00Z'' ''b'', memo ''2024-01-01T00:00:00Z'' ''a'',
          memo ''2024-01-01T00:00:00Z'' ''c'']
   \<and> sorted_wrt (\<lambda>a b. the (demo_getTime (createTime a)) \<ge> the (demo_getTime (createTime b)))
         [memo ''2024-01-03T00:00:00Z'' ''b'', memo ''2024-01-01T00:00:00Z'' ''a'',
          memo ''2024-01-01T00:00:00Z'' ''c'']
   \<and> filter (\<lambda>m. demo_getTime (createTime m) = Some 1704067200000)
         (fetched (syncLimit demo_service) (fetch_trace demo_getTime (replay demo_pages) demo_service 0))
       = filter (\<lambda>m. demo_getTime (createTime m) = Some 1704067200000)
         [memo ''2024-01-03T00:00:00Z'' ''b'', memo ''2024-01-01T00:00:00Z'' ''a'',
          memo ''2024-01-01T00:00:00Z'' ''c'']"
proof -
  have h1: "fetch_result demo_getTime (replay demo_pages) demo_service 0
       = Inr [memo ''2024-01-03T00:00:00Z'' ''b'', memo ''2024-01-01T00:00:00Z'' ''a'',
              memo ''2024-01-01T00:00:00Z'' ''c'']" by code_simp
  have h2: "list_all (\<lambda>m. demo_getTime (createTime m) \<noteq> None)
         [memo ''2024-01-03T00:00:00Z'' ''b'', memo ''2024-01-01T00:00:00Z'' ''a'',
          memo ''2024-01-01T00:00:00Z'' ''c'']" by code_simp
  from h2 have h2': "\<forall>m\<in>set [memo ''2024-01-03T00:00:00Z'' ''b'', memo ''2024-01-01T00:00:00Z'' ''a'',
          memo ''2024-01-01T00:00:00Z'' ''c'']. demo_getTime (createTime m) \<noteq> None"
    unfolding list_all_iff .
  from result_sorted_by_createTime_desc [OF h1 h2'] h1 h2 show ?thesis by metis
qed

text \<open>
  C5, as the code has it. Every page request of a run has the URL
  \<^verbatim>\<open>{apiUrl}/memos?state=NORMAL&pageSize={n}\<close>, followed by \<^verbatim>\<open>&pageToken={t}\<close> when a token
  is passed on, where \<open>n\<close> is \<open>min 100 syncLimit\<close> in decimal; that number is at most 100
  and at most \<^verbatim>\<open>syncLimit\<close>.
\<close>

theorem page_size_is_min_100_syncLimit:
  assumes "ex \<in> set (fetch_trace getTime requestUrl svc w)"
  shows "(\<exists>tk. url (sent ex) =
            apiUrl svc @ ''/memos?state=NORMAL&pageSize='' @ int_toString (min 100 (syncLimit svc))
              @ (case tk of None \<Rightarrow> []
                 | Some t \<Rightarrow> if t \<noteq> [] then ''&pageToken='' @ form_urlencode t else []))
     \<and> min 100 (syncLimit svc) \<le> 100 \<and> min 100 (syncLimit svc) \<le> syncLimit svc"
proof (cases getTime requestUrl svc w rule: fetch_run)
  case config
  with assms show ?thesis by simp
next
  case (looped r0 w')
  from fetch_loop_requests [OF looped(2) assms] obtain tk
    where "sent ex = page_request svc (min 100 (syncLimit svc)) tk" by blast
  then have "url (sent ex) =
            apiUrl svc @ ''/memos?state=NORMAL&pageSize='' @ int_toString (min 100 (syncLimit svc))
              @ (case tk of None \<Rightarrow> []
                 | Some t \<Rightarrow> if t \<noteq> [] then ''&pageToken='' @ form_urlencode t else [])"
    by (simp only: url_page_request)
  then show ?thesis by auto
qed

theorem page_size_is_min_100_syncLimit_witness:
  "fetch_trace demo_getTime (replay demo_pages) demo_service 0 ! 1
     \<in> set (fetch_trace demo_getTime (replay demo_pages) demo_service 0)
   \<and> url (sent (fetch_trace demo_getTime (replay demo_pages) demo_service 0 ! 1))
       = ''https://memos.example/api/v1/memos?state=NORMAL&pageSize=3&pageToken=next''
   \<and> min 100 (syncLimit demo_service) \<le> 100
   \<and> min 100 (syncLimit demo_service) \<le> syncLimit demo_service"
proof -
  have len: "1 < length (fetch_trace demo_getTime (replay demo_pages) demo_service 0)" by code_simp
  have h: "fetch_trace demo_getTime (replay demo_pages) demo_service 0 ! 1
     \<in> set (fetch_trace demo_getTime (replay demo_pages) demo_service 0)"
    using len by (rule nth_mem)
  have u: "url (sent (fetch_trace demo_getTime (replay demo_pages) demo_service 0 ! 1))
       = ''https://memos.example/api/v1/memos?state=NORMAL&pageSize=3&pageToken=next''" by code_simp
  from page_size_is_min_100_syncLimit [OF h] h u show ?thesis by blast
qed

text \<open>
  C5 as stated fails: the page size is the same in every request and is not lowered to the
  budget that remains. With a limit of three and a first page of two memos, the second
  request asks for three memos while one is still missing.
\<close>

theorem page_size_exceeds_remaining_budget:
  "url (sent (fetch_trace demo_getTime (replay demo_pages) demo_service 0 ! 1))
     = ''https://memos.example/api/v1/memos?state=NORMAL&pageSize=3&pageToken=next''
   \<and> accumulated (fetch_trace demo_getTime (replay demo_pages) demo_service 0 ! 1) = 2
   \<and> \<not> min 100 (syncLimit demo_service)
        \<le> syncLimit demo_service
           - int (accumulated (fetch_trace demo_getTime (replay demo_pages) demo_service 0 ! 1))"
  by code_simp

text \<open>
  C6. If the API URL does not contain \<^verbatim>\<open>/api/v1\<close>, \<^verbatim>\<open>fetchAllMemos\<close> throws the error of
  line 33, the trace is empty and the transport is left in the state it was in.
\<close>

theorem bad_url_fails_before_any_request:
  assumes "\<not> js_includes (apiUrl svc) ''/api/v1''"
  shows "fetchAllMemos getTime requestUrl svc w = (Inl ConfigurationError, [], w)"
  using assms by (simp add: fetchAllMemos_def fetchAllMemos_try_def)

theorem bad_url_fails_before_any_request_witness:
  "\<not> js_includes (apiUrl (demo_service\<lparr>apiUrl := ''https://memos.example''\<rparr>)) ''/api/v1''
   \<and> fetchAllMemos demo_getTime (replay demo_pages) (demo_service\<lparr>apiUrl := ''https://memos.example''\<rparr>) 0
       = (Inl ConfigurationError, [], 0)"
proof -
  have h: "\<not> js_includes (apiUrl (demo_service\<lparr>apiUrl := ''https://memos.example''\<rparr>)) ''/api/v1''"
    by code_simp
  from bad_url_fails_before_any_request [OF h, of demo_getTime "replay demo_pages" 0] h
  show ?thesis by blast
qed

text \<open>
  C7. If the \<open>i\<close>-th request of a run comes back with a status other than 200, the call
  throws the error of line 62 with that status and that response text, returns no list,
  and the request is the last one of the run.
\<close>

theorem non_200_fails:
  assumes "i < length (fetch_trace getTime requestUrl svc w)"
    and "received (fetch_trace getTime requestUrl svc w ! i) = Responded resp"
    and "status resp \<noteq> 200"
  shows "fetch_result getTime requestUrl svc w = Inl (TransportError (status resp) (text_body resp))
     \<and> Suc i = length (fetch_trace getTime requestUrl svc w)"
proof (cases getTime requestUrl svc w rule: fetch_run)
  case config
  with assms(1) show ?thesis by simp
next
  case (looped r0 w')
  let ?exs = "fetch_trace getTime requestUrl svc w"
  have last: "Suc i = length ?exs"
  proof (rule ccontr)
    assume "Suc i \<noteq> length ?exs"
    with assms(1) have "Suc i < length ?exs" by simp
    from fetch_loop_continues [OF looped(2) this] assms(2,3) show False
      by (simp add: continues_def)
  qed
  with assms(1) have l: "last ?exs = ?exs ! i"
    by (metis diff_Suc_1 last_conv_nth length_greater_0_conv less_nat_zero_code list.size(3))
  from fetch_loop_last [OF looped(2)] l assms(2,3)
  have "r0 = Inl (TransportError (status resp) (text_body resp))"
    by (cases r0) (auto simp: page_step_Throw)
  with looped(3) last show ?thesis by (simp add: rethrown_def)
qed

theorem non_200_fails_witness:
  "1 < length (fetch_trace demo_getTime (replay demo_fail) demo_service 0)
   \<and> received (fetch_trace demo_getTime (replay demo_fail) demo_service 0 ! 1)
       = Responded \<lparr>status = 500, text_body = ''boom'', json = JsonFalsy, arrayBuffer = None\<rparr>
   \<and> fetch_result demo_getTime (replay demo_fail) demo_service 0 = Inl (TransportError 500 ''boom'')
   \<and> Suc 1 = length (fetch_trace demo_getTime (replay demo_fail) demo_service 0)"
proof -
  have h1: "1 < length (fetch_trace demo_getTime (replay demo_fail) demo_service 0)" by code_simp
  have h2: "received (fetch_trace demo_getTime (replay demo_fail) demo_service 0 ! 1)
       = Responded \<lparr>status = 500, text_body = ''boom'', json = JsonFalsy, arrayBuffer = None\<rparr>"
    by code_simp
  have h3: "status \<lparr>status = 500, text_body = ''boom'', json = JsonFalsy :: string memo_item_scheme response_json,
                    arrayBuffer = None\<rparr> \<noteq> 200" by simp
  from non_200_fails [OF h1 h2 h3] h1 h2 show ?thesis by simp
qed

text \<open>
  C8. \<^verbatim>\<open>downloadResource\<close> never throws. It returns a buffer exactly when the transport
  answers with status 200 and a buffer, and that buffer is the one it returns; in every
  other case, an exception of the transport among them, it returns \<^verbatim>\<open>null\<close>.
\<close>

theorem downloadResource_never_throws:
  "(\<exists>v. fst (downloadResource requestUrl svc res w) = Inr v)
   \<and> (\<forall>buf. fst (downloadResource requestUrl svc res w) = Inr (Some buf)
          \<longleftrightarrow> (\<exists>r. fst (requestUrl (download_request svc res) w) = Responded r
                  \<and> status r = 200 \<and> arrayBuffer r = Some buf))
   \<and> (fst (downloadResource requestUrl svc res w) = Inr None
          \<longleftrightarrow> (\<forall>r. fst (requestUrl (download_request svc res) w) = Responded r
                  \<longrightarrow> status r \<noteq> 200 \<or> arrayBuffer r = None))"
proof -
  obtain out w' where tr: "requestUrl (download_request svc res) w = (out, w')" by fastforce
  show ?thesis
  proof (cases out)
    case (Threw e)
    with tr show ?thesis by (simp add: downloadResource_eq [where requestUrl = requestUrl, OF tr])
  next
    case (Responded r)
    with tr show ?thesis
      by (cases "arrayBuffer r") (auto simp: downloadResource_eq [where requestUrl = requestUrl, OF tr])
  qed
qed

theorem downloadResource_never_throws_witness:
  "fst (downloadResource (replay [demo_file]) demo_service demo_resource 0) = Inr (Some [137, 80, 78, 71])
   \<and> fst (downloadResource (replay [demo_missing]) demo_service demo_resource 0) = Inr None
   \<and> fst (downloadResource (replay [demo_no_buffer]) demo_service demo_resource 0) = Inr None
   \<and> fst (downloadResource (replay [demo_unreachable]) demo_service demo_resource 0) = Inr None"
proof -
  have f: "fst (replay [demo_file] (download_request demo_service demo_resource) 0)
      = Responded \<lparr>status = 200, text_body = [], json = JsonFalsy, arrayBuffer = Some [137, 80, 78, 71]\<rparr>"
    by (simp add: replay_def demo_file_def)
  have m: "fst (replay [demo_missing] (download_request demo_service demo_resource) 0)
      = Responded \<lparr>status = 404, text_body = ''not found'', json = JsonFalsy, arrayBuffer = Some []\<rparr>"
    by (simp add: replay_def demo_missing_def)
  have n: "fst (replay [demo_no_buffer] (download_request demo_service demo_resource) 0)
      = Responded \<lparr>status = 200, text_body = ''ok'', json = JsonFalsy, arrayBuffer = None\<rparr>"
    by (simp add: replay_def demo_no_buffer_def)
  have u: "fst (replay [demo_unreachable] (download_request demo_service demo_resource) 0)
      = Threw (TypeError ''Failed to fetch'')"
    by (simp add: replay_def demo_unreachable_def)
  from downloadResource_never_throws [of "replay [demo_file]" demo_service demo_resource 0] f
  have 1: "fst (downloadResource (replay [demo_file]) demo_service demo_resource 0) = Inr (Some [137, 80, 78, 71])"
    by simp
  from downloadResource_never_throws [of "replay [demo_missing]" demo_service demo_resource 0] m
  have 2: "fst (downloadResource (replay [demo_missing]) demo_service demo_resource 0) = Inr None"
    by simp
  from downloadResource_never_throws [of "replay [demo_no_buffer]" demo_service demo_resource 0] n
  have 3: "fst (downloadResource (replay [demo_no_buffer]) demo_service demo_resource 0) = Inr None"
    by simp
  from downloadResource_never_throws [of "replay [demo_unreachable]" demo_service demo_resource 0] u
  have 4: "fst (downloadResource (replay [demo_unreachable]) demo_service demo_resource 0) = Inr None"
    by simp
  from 1 2 3 4 show ?thesis by blast
qed

text \<open>
  C9, as the code has it. \<^verbatim>\<open>downloadResource\<close> sends one request. Its URL is the API URL
  without its first \<^verbatim>\<open>/api/v1\<close>, then \<^verbatim>\<open>/file/attachments/\<close>, the attachment id,
  \<^verbatim>\<open>/\<close> and the percent-encoded file name. The attachment id is the final segment of
  the name when that segment is not empty, and the whole name otherwise. For an API URL that
  ends in \<^verbatim>\<open>/api/v1\<close> and has no other occurrence of it, removing the first occurrence
  strips the suffix. The name \<^verbatim>\<open>attachments/sub/77\<close> gives the id \<^verbatim>\<open>77\<close>.
\<close>

theorem download_url:
  "map url (fst (snd (downloadResource requestUrl svc res w)))
     = [js_replace ''/api/v1'' [] (apiUrl svc) @ ''/file/attachments/''
          @ (if final_segment (name res) \<noteq> [] then final_segment (name res) else name res)
          @ ''/'' @ encodeURIComponent (filename res)]
   \<and> (\<forall>b. apiUrl svc = b @ ''/api/v1'' \<and> \<not> js_includes (b @ ''/api/v'') ''/api/v1''
          \<longrightarrow> js_replace ''/api/v1'' [] (apiUrl svc) = b)
   \<and> attachmentId (res\<lparr>name := ''attachments/sub/77''\<rparr>) = ''77''"
proof -
  obtain out w' where tr: "requestUrl (download_request svc res) w = (out, w')" by fastforce
  then have "fst (snd (downloadResource requestUrl svc res w)) = [download_request svc res]"
    by (simp add: downloadResource_eq [where requestUrl = requestUrl, OF tr])
  then have "map url (fst (snd (downloadResource requestUrl svc res w)))
     = [js_replace ''/api/v1'' [] (apiUrl svc) @ ''/file/attachments/''
          @ (if final_segment (name res) \<noteq> [] then final_segment (name res) else name res)
          @ ''/'' @ encodeURIComponent (filename res)]"
    by (simp add: download_request_def resourceUrl_def attachmentId_final_segment)
  moreover have "js_replace ''/api/v1'' [] (apiUrl svc) = b"
    if "apiUrl svc = b @ ''/api/v1''" and "\<not> js_includes (b @ ''/api/v'') ''/api/v1''" for b
  proof -
    have "butlast ''/api/v1'' = ''/api/v''" by simp
    with that(2) have "\<not> js_includes (b @ butlast ''/api/v1'') ''/api/v1''" by simp
    from js_replace_suffix [OF this] that(1) show ?thesis by simp
  qed
  moreover have "attachmentId (res\<lparr>name := ''attachments/sub/77''\<rparr>) = ''77''"
    by (simp add: attachmentId_def js_pop_def)
  ultimately show ?thesis by blast
qed

theorem download_url_witness:
  "apiUrl demo_service = ''https://memos.example'' @ ''/api/v1''
   \<and> \<not> js_includes (''https://memos.example'' @ ''/api/v'') ''/api/v1''
   \<and> js_replace ''/api/v1'' [] (apiUrl demo_service) = ''https://memos.example''
   \<and> map url (fst (snd (downloadResource (replay [demo_file]) demo_service demo_resource 0)))
       = [''https://memos.example/file/attachments/77/photo%201.png'']"
proof -
  have h1: "apiUrl demo_service = ''https://memos.example'' @ ''/api/v1''" by code_simp
  have h2: "\<not> js_includes (''https://memos.example'' @ ''/api/v'') ''/api/v1''" by code_simp
  have e: "[js_replace ''/api/v1'' [] (apiUrl demo_service) @ ''/file/attachments/''
          @ (if final_segment (name demo_resource) \<noteq> [] then final_segment (name demo_resource)
             else name demo_resource)
          @ ''/'' @ encodeURIComponent (filename demo_resource)]
      = [''https://memos.example/file/attachments/77/photo%201.png'']" by code_simp
  from download_url [of "replay [demo_file]" demo_service demo_resource 0] h1 h2 e
  show ?thesis by metis
qed

text \<open>
  C9 as stated fails for a name that ends in \<^verbatim>\<open>/\<close>: its final segment is empty, and the
  code then takes the whole name as the attachment id.
\<close>

theorem attachment_id_of_trailing_slash:
  "map url (fst (snd (downloadResource (replay [demo_unreachable]) demo_service demo_trailing 0)))
     \<noteq> [''https://memos.example'' @ ''/file/attachments/'' @ final_segment (name demo_trailing)
          @ ''/'' @ encodeURIComponent (filename demo_trailing)]"
  by code_simp

text \<open>
  C10, for integer limits. If \<^verbatim>\<open>syncLimit\<close> is an integer \<open>k\<close> of at least one, then for
  every behaviour of the server \<^verbatim>\<open>fetchAllMemos\<close> returns, fuel for \<open>k\<close> requests being
  enough; it sends at most \<open>k\<close> requests, and between one request and the next the
  accumulator has grown.
\<close>

theorem integer_limit_returns_within_syncLimit_requests:
  assumes "syncLimit svc = of_int k" and "1 \<le> k" and "nat k \<le> fuel"
  shows "\<exists>r exs w'. fetchAllMemos_num fuel getTime fraction_toString requestUrl svc w = (Some r, exs, w')
     \<and> int (length exs) \<le> k
     \<and> (\<forall>i. Suc i < length exs \<longrightarrow> accumulated (exs ! i) < accumulated (exs ! Suc i))"
proof -
  define svc0 :: "int memos_service"
    where "svc0 = \<lparr>apiUrl = apiUrl svc, accessToken = accessToken svc, syncLimit = k\<rparr>"
  from assms(1) have svc: "svc = as_number svc0" by (simp add: svc0_def as_number_def)
  from assms(2) have "1 \<le> syncLimit svc0" by (simp add: svc0_def)
  from fetch_bounded_by_integer_limit [OF this, of getTime requestUrl w]
  obtain r exs w' where run: "fetchAllMemos getTime requestUrl svc0 w = (r, exs, w')"
    and len: "int (length exs) \<le> k"
    and grows: "\<forall>i. Suc i < length exs \<longrightarrow> accumulated (exs ! i) < accumulated (exs ! Suc i)"
    by (auto simp: svc0_def)
  from len assms(3) have "length exs \<le> fuel" by linarith
  from fetchAllMemos_num_integer [OF run this, of fraction_toString] svc len grows
  show ?thesis by blast
qed

theorem integer_limit_returns_within_syncLimit_requests_witness:
  "syncLimit (as_number demo_service) = of_int 3 \<and> (1::int) \<le> 3 \<and> nat 3 \<le> 3
   \<and> fst (fetchAllMemos_num 3 demo_getTime demo_fraction_toString (replay demo_pages)
            (as_number demo_service) 0)
       = Some (Inr [memo ''2024-01-03T00:00:00Z'' ''b'', memo ''2024-01-01T00:00:00Z'' ''a'',
                    memo ''2024-01-01T00:00:00Z'' ''c''])
   \<and> int (length (fst (snd (fetchAllMemos_num 3 demo_getTime demo_fraction_toString (replay demo_pages)
            (as_number demo_service) 0)))) \<le> 3"
proof -
  have h1: "syncLimit (as_number demo_service) = of_int 3" by (simp add: as_number_def demo_service_def)
  have h2: "(1::int) \<le> 3" by simp
  have h3: "nat 3 \<le> 3" by simp
  have e: "fst (fetchAllMemos_num 3 demo_getTime demo_fraction_toString (replay demo_pages)
            (as_number demo_service) 0)
       = Some (Inr [memo ''2024-01-03T00:00:00Z'' ''b'', memo ''2024-01-01T00:00:00Z'' ''a'',
                    memo ''2024-01-01T00:00:00Z'' ''c''])" by code_simp
  from integer_limit_returns_within_syncLimit_requests [OF h1 h2 h3, of demo_getTime
      demo_fraction_toString "replay demo_pages" 0] h1 e
  show ?thesis by auto
qed

text \<open>
  C10 as stated fails for a limit that is not an integer. With a limit of two and a half
  and a server that sends one memo and a token every time, the third page is not empty and
  adds nothing (\<^verbatim>\<open>slice(0, 0.5)\<close> is empty, and two items are fewer than two and a half),
  and after ten requests the call has not returned. By \<open>fractional_limit_never_returns\<close>
  no number of requests is enough.
\<close>

theorem fractional_limit_keeps_requesting:
  "1 \<le> syncLimit demo_fractional
   \<and> fst (fetchAllMemos_num 10 demo_getTime demo_fraction_toString (endless demo_one_more)
            demo_fractional 0) = None
   \<and> length (fst (snd (fetchAllMemos_num 10 demo_getTime demo_fraction_toString (endless demo_one_more)
            demo_fractional 0))) = 10
   \<and> \<not> of_nat 10 \<le> syncLimit demo_fractional
   \<and> page_memos (received (fst (snd (fetchAllMemos_num 10 demo_getTime demo_fraction_toString
            (endless demo_one_more) demo_fractional 0)) ! 2)) \<noteq> []
   \<and> accumulated (fst (snd (fetchAllMemos_num 10 demo_getTime demo_fraction_toString
            (endless demo_one_more) demo_fractional 0)) ! 3)
       = accumulated (fst (snd (fetchAllMemos_num 10 demo_getTime demo_fraction_toString
            (endless demo_one_more) demo_fractional 0)) ! 2)"
  by code_simp


end
